theory Spec2Isabelle
  imports Complex_Main "HOL-Library.Sublist" "HOL-Library.AList" "HOL-Library.Multiset"
    "HOL-Library.Log_Nat"
begin

section \<open>Strings\<close>

text \<open>
  A Python \<open>str\<close> is modelled as a \<^typ>\<open>string\<close> whose characters are the code points
  below 256 (Latin-1), one \<^typ>\<open>char\<close> per code point, so that \<^const>\<open>length\<close> is Python's
  \<open>len\<close>. This range holds every letter of the regular expression \<open>_WORD_RE\<close>, every marker
  and every word of the word lists of \<open>build.py\<close>. Texts with code points from 256 on are
  outside the model: \<open>str.lower\<close> takes three of them into the class or next to it (U+212A to
  \<open>k\<close>, U+212B to a-ring, U+0130 to \<open>i\<close> and U+0307), which \<open>lower_char\<close> does not show.
\<close>

definition lower_char :: "char \<Rightarrow> char" where
  \<comment> \<open>\<open>str.lower\<close> on one code point below 256: A-Z and the upper-case letters
      U+00C0..U+00DE (the multiplication sign U+00D7 apart) move up by 32.\<close>
  "lower_char c =
     (let n = (of_char c :: nat)
      in if (65 \<le> n \<and> n \<le> 90) \<or> (192 \<le> n \<and> n \<le> 222 \<and> n \<noteq> 215)
         then char_of (n + 32) else c)"

definition py_lower :: "string \<Rightarrow> string" where
  "py_lower s = map lower_char s"

definition is_word_char :: "char \<Rightarrow> bool" where
  \<comment> \<open>The character class of \<open>_WORD_RE\<close>, in the order it is written:
      a-z, the eight lower-case accented letters, A-Z, the eight upper-case accented letters.\<close>
  "is_word_char c =
     (let n = (of_char c :: nat)
      in (97 \<le> n \<and> n \<le> 122)
         \<or> n = 229 \<or> n = 228 \<or> n = 246 \<or> n = 233 \<or> n = 232 \<or> n = 252 \<or> n = 230 \<or> n = 248
         \<or> (65 \<le> n \<and> n \<le> 90)
         \<or> n = 197 \<or> n = 196 \<or> n = 214 \<or> n = 201 \<or> n = 200 \<or> n = 220 \<or> n = 198 \<or> n = 216)"

fun word_runs :: "string \<Rightarrow> string \<Rightarrow> string list" where
  \<comment> \<open>\<open>_WORD_RE.findall\<close>: the maximal runs of class characters, left to right;
      the first argument is the run being read.\<close>
  "word_runs cur [] = (if cur = [] then [] else [cur])"
| "word_runs cur (c # cs) =
     (if is_word_char c then word_runs (cur @ [c]) cs
      else (if cur = [] then [] else [cur]) @ word_runs [] cs)"

definition findall :: "string \<Rightarrow> string list" where
  "findall text = word_runs [] text"

fun str_find :: "string \<Rightarrow> string \<Rightarrow> nat option" where
  \<comment> \<open>\<open>text.find(pat)\<close>: the lowest index where \<open>pat\<close> starts, \<open>None\<close> for Python's -1.\<close>
  "str_find [] pat = (if pat = [] then Some 0 else None)"
| "str_find (c # cs) pat =
     (if prefix pat (c # cs) then Some 0 else map_option Suc (str_find cs pat))"

definition str_find_from :: "string \<Rightarrow> string \<Rightarrow> nat \<Rightarrow> nat option" where
  \<comment> \<open>\<open>text.find(pat, start)\<close> for \<open>start\<close> within the text.\<close>
  "str_find_from text pat start = map_option (\<lambda>i. start + i) (str_find (drop start text) pat)"

fun str_rfind_char :: "string \<Rightarrow> char \<Rightarrow> nat option" where
  \<comment> \<open>\<open>text.rfind(c)\<close> for a single character.\<close>
  "str_rfind_char [] c = None"
| "str_rfind_char (x # xs) c =
     (case str_rfind_char xs c of
        Some i \<Rightarrow> Some (Suc i)
      | None \<Rightarrow> if x = c then Some 0 else None)"

definition endswith :: "string \<Rightarrow> string \<Rightarrow> bool" where
  "endswith s suf = suffix suf s"

definition join :: "string \<Rightarrow> string list \<Rightarrow> string" where
  \<comment> \<open>\<open>sep.join(parts)\<close>\<close>
  "join sep parts = (case parts of [] \<Rightarrow> [] | p # ps \<Rightarrow> p @ concat (map (\<lambda>q. sep @ q) ps))"

section \<open>Gutenberg header and footer stripping\<close>

definition START_MARKERS :: "string list" where
  "START_MARKERS = [
   ''*** START OF THIS PROJECT GUTENBERG'', ''*** START OF THE PROJECT GUTENBERG'',
   ''***START OF THIS PROJECT GUTENBERG'', ''*** START OF THIS'', ''*END*THE SMALL PRINT'']"

definition END_MARKERS :: "string list" where
  "END_MARKERS = [
   ''*** END OF THIS PROJECT GUTENBERG'', ''*** END OF THE PROJECT GUTENBERG'',
   ''***END OF THIS PROJECT GUTENBERG'', ''*** END OF THIS'', ''End of Project Gutenberg'',
   ''End of the Project Gutenberg'']"

fun strip_start :: "string list \<Rightarrow> string \<Rightarrow> string" where
  \<comment> \<open>The first loop of \<open>strip_gutenberg_boilerplate\<close>: the first marker of the list that
      occurs ends the loop, whether or not a line break follows it.\<close>
  "strip_start [] text = text"
| "strip_start (marker # markers) text =
     (case str_find text marker of
        None \<Rightarrow> strip_start markers text
      | Some idx \<Rightarrow>
          (case str_find_from text [CHR 0x0A] idx of
             None \<Rightarrow> text
           | Some nl \<Rightarrow> drop (nl + 1) text))"

fun strip_end :: "string list \<Rightarrow> string \<Rightarrow> string" where
  \<comment> \<open>The second loop: cut at the first marker of the list that occurs.\<close>
  "strip_end [] text = text"
| "strip_end (marker # markers) text =
     (case str_find text marker of
        None \<Rightarrow> strip_end markers text
      | Some idx \<Rightarrow> take idx text)"

definition strip_gutenberg_boilerplate :: "string \<Rightarrow> string" where
  "strip_gutenberg_boilerplate text = strip_end END_MARKERS (strip_start START_MARKERS text)"

definition marker_free :: "string \<Rightarrow> bool" where
  \<comment> \<open>No start marker and no end marker occurs in the text.\<close>
  "marker_free text =
     (list_all (\<lambda>m. str_find text m = None) START_MARKERS
      \<and> list_all (\<lambda>m. str_find text m = None) END_MARKERS)"

section \<open>Word-frequency mappings\<close>

text \<open>
  A \<open>Counter\<close> is a Python dictionary: keys in insertion order, each key once. It is an
  association list here; \<open>wf_counter\<close> says that no key occurs twice, and two counters are
  equal in Python's sense (\<open>==\<close> ignores the order) when they are the same map.
\<close>

type_synonym counter = "(string \<times> int) list"

definition wf_counter :: "counter \<Rightarrow> bool" where
  "wf_counter c = distinct (map fst c)"

definition counter_eq :: "counter \<Rightarrow> counter \<Rightarrow> bool" where
  "counter_eq a b = (map_of a = map_of b)"

definition counter_get :: "counter \<Rightarrow> string \<Rightarrow> int" where
  \<comment> \<open>\<open>counter.get(k, 0)\<close>, which is also \<open>counter[k]\<close> of a \<open>Counter\<close>.\<close>
  "counter_get c k = (case map_of c k of None \<Rightarrow> 0 | Some n \<Rightarrow> n)"

definition counter_incr :: "counter \<Rightarrow> string \<Rightarrow> counter" where
  \<comment> \<open>\<open>counter[w] += 1\<close>\<close>
  "counter_incr c w = AList.update w (counter_get c w + 1) c"

definition counter_update :: "counter \<Rightarrow> counter \<Rightarrow> counter" where
  \<comment> \<open>\<open>self.update(other)\<close> of a \<open>Counter\<close>: the counts of \<open>other\<close> are added in.\<close>
  "counter_update self other =
     fold (\<lambda>(elem, count) s. AList.update elem (count + counter_get s elem) s) other self"

definition counter_total :: "counter \<Rightarrow> int" where
  \<comment> \<open>\<open>sum(counter.values())\<close>\<close>
  "counter_total c = sum_list (map snd c)"

section \<open>Tokenizer\<close>

definition ENGLISH_STOPWORDS :: "string list" where
  "ENGLISH_STOPWORDS = [
   ''the'', ''of'', ''a'', ''and'', ''to'', ''in'', ''that'', ''was'', ''he'', ''it'', ''his'',
   ''is'', ''with'', ''for'', ''as'', ''had'', ''her'', ''not'', ''but'', ''at'', ''be'',
   ''this'', ''have'', ''from'', ''or'', ''by'', ''which'', ''you'', ''an'', ''were'', ''are'',
   ''been'', ''has'', ''their'', ''said'', ''each'', ''she'', ''do'', ''its'', ''about'',
   ''would'', ''them'', ''made'', ''after'', ''could'', ''than'', ''other'', ''into'',
   ''more'', ''some'', ''time'', ''very'', ''when'', ''come'', ''can'', ''no'', ''most'',
   ''only'', ''over'', ''such'', ''also'', ''back'', ''should'', ''well'', ''these'',
   ''where'', ''just'', ''we'', ''what'', ''your'', ''out'', ''if'', ''will'', ''up'', ''my'',
   ''who'', ''so'', ''they'', ''did'', ''him'', ''work'', ''any'', ''may'', ''then'',
   ''first'', ''all'', ''our'', ''free'', ''state'', ''one'', ''two'', ''way'', ''project'',
   ''gutenberg'', ''ebook'', ''license'', ''electronic'', ''works'', ''foundation'', ''terms'',
   ''copy'', ''distributed'', ''redistribution'', ''agreement'', ''trademark'', ''paragraph'',
   ''donations'', ''copyright'', ''permission'', ''archive'', ''donation'', ''volunteers'',
   ''compliance'', ''literary'', ''domain'', ''public'', ''refund'', ''replacement'',
   ''defect'', ''disclaimer'', ''warranties'', ''including'', ''limited'', ''merchantability'',
   ''www'', ''http'', ''org'', ''htm'', ''txt'', ''utf'']"

definition SHARED_WORDS :: "string list" where
  "SHARED_WORDS = [
   ''i'', ''de'', ''en'', ''se'', ''man'', ''nu'', ''du'', ''vi'', ''den'', ''han'', ''hon'',
   ''sin'', ''an'', ''under'', ''in'', ''fort'', ''hand'', ''modern'', ''barn'', ''salt'',
   ''sand'', ''berg'', ''is'', ''fin'', ''hall'', ''full'', ''land'', ''rum'', ''folk'',
   ''arm'', ''form'', ''plan'', ''film'', ''ring'', ''start'', ''all'', ''organ'', ''rest'',
   ''lever'', ''horn'', ''mask'', ''nor'', ''order'']"

definition tokenize_step :: "string \<Rightarrow> counter \<Rightarrow> counter" where
  \<comment> \<open>The body of the loop of \<open>tokenize_and_count\<close>.\<close>
  "tokenize_step w counter =
     (if length w < 1 \<or> length w > 40 then counter
      else if w \<in> set ENGLISH_STOPWORDS \<and> w \<notin> set SHARED_WORDS then counter
      else counter_incr counter w)"

definition tokenize_and_count :: "string \<Rightarrow> counter" where
  "tokenize_and_count text = fold tokenize_step (findall (py_lower text)) []"

definition keeps :: "string \<Rightarrow> bool" where
  \<comment> \<open>A run survives both filters of the loop.\<close>
  "keeps w =
     (\<not> (length w < 1 \<or> length w > 40)
      \<and> \<not> (w \<in> set ENGLISH_STOPWORDS \<and> w \<notin> set SHARED_WORDS))"

definition counts_pos :: "counter \<Rightarrow> bool" where
  \<comment> \<open>Every count of the mapping is at least 1.\<close>
  "counts_pos c = list_all (\<lambda>(k, n). 1 \<le> n) c"

definition is_space :: "char \<Rightarrow> bool" where
  \<comment> \<open>\<open>str.isspace\<close> on one code point below 256.\<close>
  "is_space c =
     (let n = (of_char c :: nat)
      in (9 \<le> n \<and> n \<le> 13) \<or> (28 \<le> n \<and> n \<le> 32) \<or> n = 133 \<or> n = 160)"

definition repeated :: "string \<Rightarrow> string list \<Rightarrow> string" where
  \<comment> \<open>The token, then each separator followed by the token again.\<close>
  "repeated w seps = w @ concat (map (\<lambda>s. s @ w) seps)"

section \<open>Text extractors\<close>

text \<open>
  What the extractors read is the environment: whether PyMuPDF could be imported, the
  decoded content of a text file, the page texts of a PDF, and the entries of an EPUB
  archive in listing order, each with the data parts that \<open>_StripTagsParser\<close> collects from
  it. \<open>None\<close> stands for a read that raises. For the discovery of the files it holds what
  \<open>os.walk\<close> yields for a top directory (each directory visited with its file names), and
  \<open>os.path.isdir\<close> and \<open>os.listdir\<close>.
\<close>

datatype py_error = Exception | ZeroDivisionError | ValueError | OverflowError | SystemExit

record env =
  PDF_SUPPORT :: bool
  read_text :: "string \<Rightarrow> string option"
  pdf_pages :: "string \<Rightarrow> string list option"
  epub_entries :: "string \<Rightarrow> (string \<times> string list option) list option"
  walk :: "string \<Rightarrow> (string \<times> string list) list"
  isdir :: "string \<Rightarrow> bool"
  listdir :: "string \<Rightarrow> string list"

definition extract_text_txt :: "env \<Rightarrow> string \<Rightarrow> py_error + string option" where
  "extract_text_txt e filepath =
     (case read_text e filepath of
        None \<Rightarrow> Inl Exception
      | Some t \<Rightarrow> Inr (Some (strip_gutenberg_boilerplate t)))"

definition extract_text_pdf :: "env \<Rightarrow> string \<Rightarrow> py_error + string option" where
  "extract_text_pdf e filepath =
     (if \<not> PDF_SUPPORT e then Inr None
      else case pdf_pages e filepath of
             None \<Rightarrow> Inl Exception
           | Some chunks \<Rightarrow> Inr (Some (join [CHR 0x0A] chunks)))"

definition is_markup_name :: "string \<Rightarrow> bool" where
  "is_markup_name name =
     (endswith (py_lower name) ''.html'' \<or> endswith (py_lower name) ''.xhtml''
      \<or> endswith (py_lower name) ''.htm'')"

fun epub_chunks :: "(string \<times> string list option) list \<Rightarrow> py_error + string list" where
  \<comment> \<open>The loop over \<open>z.namelist()\<close>: only the markup entries are read.\<close>
  "epub_chunks [] = Inr []"
| "epub_chunks ((name, parts) # rest) =
     (if is_markup_name name then
        (case parts of
           None \<Rightarrow> Inl Exception
         | Some ps \<Rightarrow>
             (case epub_chunks rest of
                Inl err \<Rightarrow> Inl err
              | Inr chunks \<Rightarrow> Inr (join '' '' ps # chunks)))
      else epub_chunks rest)"

definition extract_text_epub :: "env \<Rightarrow> string \<Rightarrow> py_error + string option" where
  "extract_text_epub e filepath =
     (case epub_entries e filepath of
        None \<Rightarrow> Inl Exception
      | Some entries \<Rightarrow>
          (case epub_chunks entries of
             Inl err \<Rightarrow> Inl err
           | Inr chunks \<Rightarrow> Inr (Some (join [CHR 0x0A] chunks))))"

definition HANDLERS :: "(string \<times> (env \<Rightarrow> string \<Rightarrow> py_error + string option)) list" where
  "HANDLERS =
     [(''.txt'', extract_text_txt), (''.pdf'', extract_text_pdf), (''.epub'', extract_text_epub)]"

definition rfind_index :: "string \<Rightarrow> char \<Rightarrow> int" where
  \<comment> \<open>\<open>p.rfind(c)\<close> with Python's -1.\<close>
  "rfind_index p c = (case str_rfind_char p c of None \<Rightarrow> - 1 | Some i \<Rightarrow> int i)"

definition splitext :: "string \<Rightarrow> string \<times> string" where
  \<comment> \<open>\<open>os.path.splitext\<close> (POSIX): the extension starts at the last dot of the last
      path component, unless only dots precede it there.\<close>
  "splitext p =
     (let sepIndex = rfind_index p (CHR ''/'');
          dotIndex = rfind_index p (CHR ''.'')
      in if dotIndex > sepIndex
            \<and> list_ex (\<lambda>c. c \<noteq> CHR ''.'')
                 (take (nat (dotIndex - (sepIndex + 1))) (drop (nat (sepIndex + 1)) p))
         then (take (nat dotIndex) p, drop (nat dotIndex) p)
         else (p, []))"

definition basename :: "string \<Rightarrow> string" where
  \<comment> \<open>\<open>os.path.basename\<close> (POSIX)\<close>
  "basename p = drop (nat (rfind_index p (CHR ''/'') + 1)) p"

definition extract_text :: "env \<Rightarrow> string \<Rightarrow> string option" where
  "extract_text e filepath =
     (let ext = py_lower (snd (splitext filepath))
      in case map_of HANDLERS ext of
           None \<Rightarrow> None
         | Some handler \<Rightarrow>
             (case handler e filepath of
                Inl err \<Rightarrow> None
              | Inr r \<Rightarrow> r))"

section \<open>Worker\<close>

definition process_single_file :: "env \<Rightarrow> string \<Rightarrow> (counter \<times> string) option" where
  "process_single_file e filepath =
     (case extract_text e filepath of
        None \<Rightarrow> None
      | Some t \<Rightarrow>
          if t = [] \<or> length t < 100 then None
          else Some (tokenize_and_count t, filepath))"

section \<open>Aggregation\<close>

record agg_state =
  total_counter :: counter
  n_done :: int
  n_failed :: int
  book_stats :: "(string \<times> int) list"

definition agg_init :: agg_state where
  "agg_init = \<lparr>total_counter = [], n_done = 0, n_failed = 0, book_stats = []\<rparr>"

definition reduce_step :: "(counter \<times> string) option \<Rightarrow> agg_state \<Rightarrow> agg_state" where
  \<comment> \<open>The body of the loop over the results; the progress bar only prints.\<close>
  "reduce_step result st =
     (case result of
        None \<Rightarrow> st\<lparr>n_done := n_done st + 1, n_failed := n_failed st + 1\<rparr>
      | Some (sub_counter, filepath) \<Rightarrow>
          st\<lparr>n_done := n_done st + 1,
             total_counter := counter_update (total_counter st) sub_counter,
             book_stats := book_stats st @ [(basename filepath, counter_total sub_counter)]\<rparr>)"

definition aggregate :: "env \<Rightarrow> string list \<Rightarrow> agg_state" where
  "aggregate e arrival = fold reduce_step (map (process_single_file e) arrival) agg_init"

definition build_frequency_counter ::
  "env \<Rightarrow> string list \<Rightarrow> int \<Rightarrow> py_error + (counter \<times> (string \<times> int) list \<times> int)" where
  \<comment> \<open>\<open>imap_unordered\<close> yields the results in the order the workers finish: the list
      \<open>arrival\<close> is \<open>all_files\<close> in that order. A pool size of 0 fails in the division of
      the chunk size, a negative one when the pool is made.\<close>
  "build_frequency_counter e arrival num_workers =
     (if length arrival = 0 then Inr ([], [], 0)
      else if num_workers * 4 = 0 then Inl ZeroDivisionError
      else if num_workers < 1 then Inl ValueError
      else let st = aggregate e arrival
           in Inr (total_counter st, book_stats st, n_failed st))"

section \<open>File discovery and the run\<close>

definition BOOKS_DIR :: string where
  "BOOKS_DIR = ''books''"

definition LEGACY_BOOKS_DIR :: string where
  "LEGACY_BOOKS_DIR = ''swedish_books''"

definition path_join :: "string \<Rightarrow> string \<Rightarrow> string" where
  \<comment> \<open>\<open>os.path.join(a, b)\<close> (POSIX)\<close>
  "path_join a b =
     (if prefix ''/'' b then b
      else if a = [] \<or> endswith a ''/'' then a @ b
      else a @ ''/'' @ b)"

fun str_le :: "string \<Rightarrow> string \<Rightarrow> bool" where
  \<comment> \<open>\<open>a <= b\<close> on strings: by code points, a prefix first.\<close>
  "str_le [] ys = True"
| "str_le (x # xs) [] = False"
| "str_le (x # xs) (y # ys) =
     (if x = y then str_le xs ys else (of_char x :: nat) < of_char y)"

fun insort_str :: "string \<Rightarrow> string list \<Rightarrow> string list" where
  "insort_str x [] = [x]"
| "insort_str x (y # ys) = (if str_le x y then x # y # ys else y # insort_str x ys)"

definition py_sorted :: "string list \<Rightarrow> string list" where
  \<comment> \<open>\<open>sorted(files)\<close>\<close>
  "py_sorted xs = foldr insort_str xs []"

definition supported_name :: "string \<Rightarrow> bool" where
  \<comment> \<open>\<open>os.path.splitext(name)[1].lower() in HANDLERS\<close>\<close>
  "supported_name name = (py_lower (snd (splitext name)) \<in> set (map fst HANDLERS))"

definition collect_files :: "env \<Rightarrow> string \<Rightarrow> bool \<Rightarrow> string list" where
  "collect_files e books_dir include_legacy =
     (let files = concat (map (\<lambda>(root, filenames).
                                 map (path_join root) (filter supported_name filenames))
                              (walk e books_dir));
          files = (if include_legacy \<and> isdir e LEGACY_BOOKS_DIR
                   then files @ map (path_join LEGACY_BOOKS_DIR)
                                  (filter supported_name (listdir e LEGACY_BOOKS_DIR))
                   else files)
      in py_sorted files)"

definition main_aggregate ::
  "env \<Rightarrow> bool \<Rightarrow> int \<Rightarrow> (string list \<Rightarrow> string list)
     \<Rightarrow> py_error + (counter \<times> (string \<times> int) list \<times> int)" where
  \<comment> \<open>The part of \<open>main\<close> from the collection of the files to the aggregation;
      \<open>sched\<close> puts the files in the order in which the pool delivers their results.\<close>
  "main_aggregate e include_legacy workers sched =
     (let all_files = collect_files e BOOKS_DIR include_legacy
      in if all_files = [] then Inl SystemExit
         else build_frequency_counter e (sched all_files) workers)"

definition plain_names :: "env \<Rightarrow> string \<Rightarrow> bool" where
  \<comment> \<open>The file names that the directories list hold no separator.\<close>
  "plain_names e books_dir =
     (list_all (\<lambda>(root, filenames). list_all (\<lambda>name. CHR ''/'' \<notin> set name) filenames)
        (walk e books_dir)
      \<and> list_all (\<lambda>name. CHR ''/'' \<notin> set name) (listdir e LEGACY_BOOKS_DIR))"

definition without_unsupported :: "env \<Rightarrow> env" where
  \<comment> \<open>The same environment with the files of unsupported extension taken out of every
      directory.\<close>
  "without_unsupported e =
     e\<lparr>walk := (\<lambda>top. map (\<lambda>(root, filenames). (root, filter supported_name filenames))
                         (walk e top)),
       listdir := (\<lambda>d. filter supported_name (listdir e d))\<rparr>"

definition library_env :: env where
  \<comment> \<open>A directory \<open>books\<close> with a word-processor file and a text file of 100 characters.\<close>
  "library_env =
     \<lparr>PDF_SUPPORT = False,
      read_text = (\<lambda>p. if p = ''books/b.txt'' then Some (concat (replicate 25 ''jag ''))
                      else None),
      pdf_pages = (\<lambda>p. None),
      epub_entries = (\<lambda>p. None),
      walk = (\<lambda>top. if top = ''books'' then [(''books'', [''notes.doc'', ''b.txt''])] else []),
      isdir = (\<lambda>d. False),
      listdir = (\<lambda>d. [])\<rparr>"

fun successes :: "'a option list \<Rightarrow> 'a list" where
  \<comment> \<open>The results that are not \<open>None\<close>, in order.\<close>
  "successes [] = []"
| "successes (None # rs) = successes rs"
| "successes (Some x # rs) = x # successes rs"

definition merge_all :: "counter list \<Rightarrow> counter \<Rightarrow> counter" where
  \<comment> \<open>The per-document mappings merged one after the other into a corpus mapping.\<close>
  "merge_all subs c = fold (\<lambda>sub acc. counter_update acc sub) subs c"

definition example_env :: env where
  \<comment> \<open>A small environment: a text file of 99 characters and one of 100.\<close>
  "example_env =
     \<lparr>PDF_SUPPORT = False,
      read_text = (\<lambda>p. if p = ''a.txt'' then Some (replicate 99 (CHR ''x''))
                      else if p = ''b.txt'' then Some (concat (replicate 25 ''jag ''))
                      else None),
      pdf_pages = (\<lambda>p. None),
      epub_entries = (\<lambda>p. None),
      walk = (\<lambda>top. []),
      isdir = (\<lambda>d. False),
      listdir = (\<lambda>d. [])\<rparr>"

section \<open>Swadesh list and ranking\<close>

definition SWADESH_SWEDISH :: "(string \<times> string) list" where
  "SWADESH_SWEDISH = [
   (''jag'', ''I''), (''du'', ''you (singular)''), (''han'', ''he''), (''hon'', ''she''),
   (''vi'', ''we''), (''ni'', ''you (plural)''), (''de'', ''they''), (''dem'', ''them''),
   (''den'', ''it / that''), (''det'', ''it (neuter)''), (''denna'', ''this''),
   (''detta'', ''this (neuter)''), (''h'' @ [CHR 0xE4] @ ''r'', ''here''),
   (''d'' @ [CHR 0xE4] @ ''r'', ''there''), (''vem'', ''who''), (''vad'', ''what''),
   (''var'', ''was / where''), (''n'' @ [CHR 0xE4] @ ''r'', ''when''), (''hur'', ''how''),
   (''inte'', ''not''), (''alla'', ''all''), (''m'' @ [CHR 0xE5] @ ''nga'', ''many''),
   (''n'' @ [CHR 0xE5] @ ''gra'', ''some''), (''f'' @ [CHR 0xE5], ''few / to get''),
   (''andra'', ''other''), (''en'', ''a / one''), (''ett'', ''a / one (neuter)''),
   (''tv'' @ [CHR 0xE5], ''two''), (''tre'', ''three''), (''fyra'', ''four''),
   (''fem'', ''five''), (''stor'', ''big''), (''l'' @ [CHR 0xE5] @ ''ng'', ''long''),
   (''bred'', ''wide''), (''tjock'', ''thick''), (''tung'', ''heavy''), (''liten'', ''small''),
   (''kort'', ''short''), (''smal'', ''narrow''), (''tunn'', ''thin''),
   (''kvinna'', ''woman''), (''man'', ''man''), (''m'' @ [CHR 0xE4] @ ''nniska'', ''person''),
   (''barn'', ''child''), (''hustru'', ''wife''), (''make'', ''husband''),
   (''mor'', ''mother''), (''far'', ''father''), (''djur'', ''animal''), (''fisk'', ''fish''),
   (''f'' @ [CHR 0xE5] @ ''gel'', ''bird''), (''hund'', ''dog''), (''lus'', ''louse''),
   (''orm'', ''snake''), (''mask'', ''worm''), (''tr'' @ [CHR 0xE4] @ ''d'', ''tree''),
   (''skog'', ''forest''), (''k'' @ [CHR 0xE4] @ ''pp'', ''stick''), (''frukt'', ''fruit''),
   (''fr'' @ [CHR 0xF6], ''seed''), (''blad'', ''leaf''), (''rot'', ''root''),
   (''bark'', ''bark (tree)''), (''blomma'', ''flower''),
   (''gr'' @ [CHR 0xE4] @ ''s'', ''grass''), (''rep'', ''rope''), (''hud'', ''skin''),
   (''k'' @ [CHR 0xF6] @ ''tt'', ''meat / flesh''), (''blod'', ''blood''),
   (''ben'', ''bone / leg''), (''fett'', ''fat''), ([CHR 0xE4] @ ''gg'', ''egg''),
   (''horn'', ''horn''), (''svans'', ''tail''), (''fj'' @ [CHR 0xE4] @ ''der'', ''feather''),
   (''h'' @ [CHR 0xE5] @ ''r'', ''hair''), (''huvud'', ''head''),
   ([CHR 0xF6] @ ''ra'', ''ear''), ([CHR 0xF6] @ ''ga'', ''eye''),
   (''n'' @ [CHR 0xE4] @ ''sa'', ''nose''), (''mun'', ''mouth''), (''tand'', ''tooth''),
   (''tunga'', ''tongue''), (''nagel'', ''fingernail''), (''fot'', ''foot''),
   (''kn'' @ [CHR 0xE4], ''knee''), (''hand'', ''hand''), (''vinge'', ''wing''),
   (''mage'', ''belly''), (''in'' @ [CHR 0xE4] @ ''lvor'', ''guts''), (''hals'', ''neck''),
   (''rygg'', ''back (body)''), (''br'' @ [CHR 0xF6] @ ''st'', ''breast''),
   (''hj'' @ [CHR 0xE4] @ ''rta'', ''heart''), (''lever'', ''liver''),
   (''dricka'', ''to drink''), ([CHR 0xE4] @ ''ta'', ''to eat''), (''bita'', ''to bite''),
   (''se'', ''to see''), (''h'' @ [CHR 0xF6] @ ''ra'', ''to hear''), (''veta'', ''to know''),
   (''t'' @ [CHR 0xE4] @ ''nka'', ''to think''), (''lukta'', ''to smell''),
   (''frukta'', ''to fear''), (''sova'', ''to sleep''), (''leva'', ''to live''),
   (''d'' @ [CHR 0xF6], ''to die''), (''d'' @ [CHR 0xF6] @ ''da'', ''to kill''),
   (''k'' @ [CHR 0xE4] @ ''mpa'', ''to fight''), (''jaga'', ''to hunt''),
   (''sl'' @ [CHR 0xE5], ''to hit''), (''sk'' @ [CHR 0xE4] @ ''ra'', ''to cut''),
   (''dela'', ''to split''), (''sticka'', ''to stab''), (''klia'', ''to scratch''),
   (''gr'' @ [CHR 0xE4] @ ''va'', ''to dig''), (''simma'', ''to swim''),
   (''flyga'', ''to fly''), (''g'' @ [CHR 0xE5], ''to walk / go''), (''komma'', ''to come''),
   (''ligga'', ''to lie down''), (''sitta'', ''to sit''), (''st'' @ [CHR 0xE5], ''to stand''),
   (''v'' @ [CHR 0xE4] @ ''nda'', ''to turn''), (''falla'', ''to fall''),
   (''ge'', ''to give''), (''h'' @ [CHR 0xE5] @ ''lla'', ''to hold''),
   (''kl'' @ [CHR 0xE4] @ ''mma'', ''to squeeze''), (''gnida'', ''to rub''),
   (''tv'' @ [CHR 0xE4] @ ''tta'', ''to wash''), (''torka'', ''to wipe / dry''),
   (''dra'', ''to pull''), (''trycka'', ''to push''), (''kasta'', ''to throw''),
   (''binda'', ''to tie''), (''sy'', ''to sew''), (''r'' @ [CHR 0xE4] @ ''kna'', ''to count''),
   (''s'' @ [CHR 0xE4] @ ''ga'', ''to say''), (''sjunga'', ''to sing''),
   (''leka'', ''to play''), (''flyta'', ''to float''),
   (''fl'' @ [CHR 0xF6] @ ''da'', ''to flow''), (''frysa'', ''to freeze''),
   (''sv'' @ [CHR 0xE4] @ ''lla'', ''to swell''), (''sol'', ''sun''),
   (''m'' @ [CHR 0xE5] @ ''ne'', ''moon''), (''stj'' @ [CHR 0xE4] @ ''rna'', ''star''),
   (''vatten'', ''water''), (''regn'', ''rain''), (''flod'', ''river''),
   (''sj'' @ [CHR 0xF6], ''lake''), (''hav'', ''sea''), (''salt'', ''salt''),
   (''sten'', ''stone''), (''sand'', ''sand''), (''stoft'', ''dust''), (''jord'', ''earth''),
   (''moln'', ''cloud''), (''dimma'', ''fog''), (''himmel'', ''sky''), (''vind'', ''wind''),
   (''sn'' @ [CHR 0xF6], ''snow''), (''is'', ''ice''), (''r'' @ [CHR 0xF6] @ ''k'', ''smoke''),
   (''eld'', ''fire''), (''aska'', ''ash''), (''br'' @ [CHR 0xE4] @ ''nna'', ''to burn''),
   (''v'' @ [CHR 0xE4] @ ''g'', ''road / path''), (''berg'', ''mountain''),
   (''r'' @ [CHR 0xF6] @ ''d'', ''red''), (''gr'' @ [CHR 0xF6] @ ''n'', ''green''),
   (''gul'', ''yellow''), (''vit'', ''white''), (''svart'', ''black''), (''natt'', ''night''),
   (''dag'', ''day''), ([CHR 0xE5] @ ''r'', ''year''), (''varm'', ''warm''),
   (''kall'', ''cold''), (''full'', ''full''), (''ny'', ''new''), (''gammal'', ''old''),
   (''god'', ''good''), (''d'' @ [CHR 0xE5] @ ''lig'', ''bad''), (''rutten'', ''rotten''),
   (''smutsig'', ''dirty''), (''rak'', ''straight''), (''rund'', ''round''),
   (''vass'', ''sharp''), (''sl'' @ [CHR 0xF6], ''dull / lazy''),
   (''sl'' @ [CHR 0xE4] @ ''t'', ''smooth''), (''v'' @ [CHR 0xE5] @ ''t'', ''wet''),
   (''torr'', ''dry''), (''r'' @ [CHR 0xE4] @ ''tt'', ''right / correct''),
   (''n'' @ [CHR 0xE4] @ ''ra'', ''near''), (''l'' @ [CHR 0xE5] @ ''ngt'', ''far (distance)''),
   (''h'' @ [CHR 0xF6] @ ''ger'', ''right (dir.)''),
   (''v'' @ [CHR 0xE4] @ ''nster'', ''left''), (''vid'', ''at / by''), (''i'', ''in''),
   (''med'', ''with''), (''och'', ''and''), (''om'', ''if / about''),
   (''f'' @ [CHR 0xF6] @ ''r'', ''for / because''), (''namn'', ''name''),
   (''vara'', ''to be''), (''ha'', ''to have''), (''bli'', ''to become''),
   (''ska'', ''shall / will''), (''kan'', ''can''), (''m'' @ [CHR 0xE5] @ ''ste'', ''must''),
   (''ville'', ''wanted''), (''skulle'', ''would''), (''hade'', ''had''),
   ([CHR 0xE4] @ ''r'', ''is / am / are''), (''blev'', ''became''),
   (''finns'', ''exists / there is''), (''sig'', ''oneself''), (''sin'', ''his/her (own)''),
   (''sitt'', ''his/her (own, n.)''), (''sina'', ''his/her (own, pl.)''), (''min'', ''my''),
   (''mitt'', ''my (neuter)''), (''din'', ''your''), (''hans'', ''his''),
   (''hennes'', ''her''), (''som'', ''who / which / that''), (''att'', ''to / that''),
   (''av'', ''of / from''), (''p'' @ [CHR 0xE5], ''on / at''), (''till'', ''to''),
   (''fr'' @ [CHR 0xE5] @ ''n'', ''from''), (''ut'', ''out''), (''upp'', ''up''),
   (''ner'', ''down''), ([CHR 0xF6] @ ''ver'', ''over''), (''under'', ''under''),
   (''mellan'', ''between''), (''efter'', ''after''),
   (''f'' @ [CHR 0xF6] @ ''re'', ''before''), (''genom'', ''through''),
   (''hos'', ''at (someone'' @ [CHR 0x27] @ ''s)''), (''mot'', ''towards / against''),
   (''utan'', ''without''), (''ocks'' @ [CHR 0xE5], ''also''), (''redan'', ''already''),
   (''bara'', ''only / just''), (''nog'', ''enough / probably''),
   (''mycket'', ''much / very''), (''mer'', ''more''), (''mest'', ''most''),
   (''sedan'', ''since / then''), (''nu'', ''now''), (''aldrig'', ''never''),
   (''alltid'', ''always''), (''ja'', ''yes''), (''nej'', ''no'')]"

record ranked_entry =
  sv :: string
  en :: string
  freq :: int

definition swadesh_joined :: "counter \<Rightarrow> ranked_entry list" where
  \<comment> \<open>The list \<open>results\<close> of \<open>build_swadesh_data\<close> before it is sorted.\<close>
  "swadesh_joined tc =
     map (\<lambda>(s, m). \<lparr>sv = s, en = m, freq = counter_get tc s\<rparr>) SWADESH_SWEDISH"

definition sort_reverse :: "('a \<Rightarrow> int) \<Rightarrow> 'a list \<Rightarrow> 'a list" where
  \<comment> \<open>\<open>list.sort(key=..., reverse=True)\<close>: the list is reversed, sorted stably in
      ascending order and reversed again.\<close>
  "sort_reverse key xs = rev (sort_key key (rev xs))"

definition build_swadesh_data :: "counter \<Rightarrow> ranked_entry list" where
  "build_swadesh_data tc = sort_reverse freq (swadesh_joined tc)"

section \<open>Floating point\<close>

text \<open>
  A Python \<open>float\<close> is an IEEE 754 binary64 number. A finite one is the rational it denotes;
  the result of an operation is its exact result, rounded to the nearest number of 53
  significant bits, a tie going to the even one, with the quantum \<open>2 ^ -1074\<close> below the
  normal range and an infinity from \<open>2 ^ 1024\<close> on. The two zeros are one value.
\<close>

datatype pyfloat = Float rat | PosInf | NegInf

definition round_half_even :: "rat \<Rightarrow> int" where
  "round_half_even x =
     (let f = \<lfloor>x\<rfloor>; d = x - of_int f
      in if d < 1 / 2 then f else if 1 / 2 < d then f + 1 else if even f then f else f + 1)"

definition ilog2 :: "rat \<Rightarrow> int" where
  \<comment> \<open>For a positive \<open>x\<close>, the exponent \<open>e\<close> with \<open>2 ^ e \<le> x < 2 ^ (e + 1)\<close>.\<close>
  "ilog2 x =
     (case quotient_of x of
        (p, d) \<Rightarrow> let e0 = bitlen p - bitlen d in if 2 powi e0 \<le> x then e0 else e0 - 1)"

definition fl :: "rat \<Rightarrow> rat" where
  \<comment> \<open>Rounding to binary64, the exponent unbounded above.\<close>
  "fl x =
     (if x = 0 then 0
      else let q = max (ilog2 \<bar>x\<bar> - 52) (- 1074)
           in of_int (round_half_even (x / 2 powi q)) * 2 powi q)"

definition to_float :: "rat \<Rightarrow> pyfloat" where
  \<comment> \<open>The float that an operation with the exact result \<open>x\<close> gives.\<close>
  "to_float x =
     (let r = fl x
      in if 2 powi 1024 \<le> r then PosInf else if r \<le> - (2 powi 1024) then NegInf else Float r)"

definition int_truediv :: "int \<Rightarrow> int \<Rightarrow> py_error + rat" where
  \<comment> \<open>\<open>a / b\<close> of two \<open>int\<close>: the quotient correctly rounded, a finite float or an error.\<close>
  "int_truediv a b =
     (if b = 0 then Inl ZeroDivisionError
      else case to_float (of_int a / of_int b) of
             Float r \<Rightarrow> Inr r
           | PosInf \<Rightarrow> Inl OverflowError
           | NegInf \<Rightarrow> Inl OverflowError)"

definition py_round1 :: "pyfloat \<Rightarrow> pyfloat" where
  \<comment> \<open>\<open>round(x, 1)\<close>: the exact value of the float rounded to one decimal, a tie to the
      even digit, and the float nearest to that decimal.\<close>
  "py_round1 x =
     (case x of
        Float r \<Rightarrow> to_float (of_int (round_half_even (r * 10)) / 10)
      | PosInf \<Rightarrow> PosInf
      | NegInf \<Rightarrow> NegInf)"

section \<open>Tier coverage\<close>

definition TIER1_SIZE :: nat where
  "TIER1_SIZE = 50"

definition TIER2_SIZE :: nat where
  "TIER2_SIZE = 100"

record tier_coverage =
  tier1 :: pyfloat
  tier2 :: pyfloat
  tier3 :: pyfloat

definition tier_percent :: "ranked_entry list \<Rightarrow> int \<Rightarrow> py_error + pyfloat" where
  \<comment> \<open>\<open>sum(w["freq"] for w in slice) / total_words * 100\<close>\<close>
  "tier_percent slice total_words =
     (case int_truediv (sum_list (map freq slice)) total_words of
        Inl err \<Rightarrow> Inl err
      | Inr q \<Rightarrow> Inr (to_float (q * 100)))"

definition compute_tier_coverage :: "ranked_entry list \<Rightarrow> int \<Rightarrow> py_error + tier_coverage" where
  \<comment> \<open>The guard returns the integer 0 three times, which is the float 0 here.\<close>
  "compute_tier_coverage swadesh_data total_words =
     (if total_words = 0 then Inr \<lparr>tier1 = Float 0, tier2 = Float 0, tier3 = Float 0\<rparr>
      else case tier_percent (take TIER1_SIZE swadesh_data) total_words of
        Inl err \<Rightarrow> Inl err
      | Inr t1 \<Rightarrow>
          (case tier_percent (drop TIER1_SIZE (take TIER2_SIZE swadesh_data)) total_words of
             Inl err \<Rightarrow> Inl err
           | Inr t2 \<Rightarrow>
               (case tier_percent (drop TIER2_SIZE swadesh_data) total_words of
                  Inl err \<Rightarrow> Inl err
                | Inr t3 \<Rightarrow>
                    Inr \<lparr>tier1 = py_round1 t1, tier2 = py_round1 t2, tier3 = py_round1 t3\<rparr>)))"

definition corpus_tier_coverage :: "counter \<Rightarrow> py_error + tier_coverage" where
  \<comment> \<open>As \<open>main\<close> calls it: the ranked list and the total of one corpus mapping.\<close>
  "corpus_tier_coverage tc =
     compute_tier_coverage (build_swadesh_data tc) (counter_total tc)"

definition corpus149 :: counter where
  \<comment> \<open>A corpus mapping: the first 149 words of the list, each counted once.\<close>
  "corpus149 = map (\<lambda>(s, m). (s, 1)) (take 149 SWADESH_SWEDISH)"

section \<open>Properties of the string functions\<close>

lemma of_char_lower_char:
  "(of_char (lower_char c) :: nat) =
     (let n = of_char c
      in if (65 \<le> n \<and> n \<le> 90) \<or> (192 \<le> n \<and> n \<le> 222 \<and> n \<noteq> 215) then n + 32 else n)"
  by (auto simp: lower_char_def Let_def)

lemma is_word_char_lower [simp]: "is_word_char (lower_char c) = is_word_char c"
  unfolding is_word_char_def of_char_lower_char Let_def
  by (cases "65 \<le> (of_char c :: nat) \<and> (of_char c :: nat) \<le> 90 \<or>
        192 \<le> (of_char c :: nat) \<and> (of_char c :: nat) \<le> 222 \<and> (of_char c :: nat) \<noteq> 215")
     (simp_all, presburger+)

lemma word_runs_append_word:
  "list_all is_word_char u \<Longrightarrow> word_runs cur (u @ rest) = word_runs (cur @ u) rest"
  by (induction u arbitrary: cur) simp_all

lemma word_runs_sep:
  "list_all (\<lambda>c. \<not> is_word_char c) s \<Longrightarrow> s \<noteq> [] \<Longrightarrow>
     word_runs cur (s @ rest) = (if cur = [] then [] else [cur]) @ word_runs [] rest"
proof (induction s arbitrary: cur)
  case Nil
  then show ?case by simp
next
  case (Cons c s)
  then show ?case by (cases "s = []") simp_all
qed

section \<open>Properties of counters and of the tokenizer loop\<close>

lemma counter_get_Nil [simp]: "counter_get [] k = 0"
  by (simp add: counter_get_def)

lemma counter_get_Cons [simp]:
  "counter_get ((e, c) # rest) k = (if k = e then c else counter_get rest k)"
  by (simp add: counter_get_def)

lemma counter_get_update [simp]:
  "counter_get (AList.update e v s) k = (if k = e then v else counter_get s k)"
  by (simp add: counter_get_def update_conv')

lemma counter_get_notin: "k \<notin> fst ` set c \<Longrightarrow> counter_get c k = 0"
  by (simp add: counter_get_def map_of_eq_None_iff [THEN iffD2])

lemma set_update_subset: "set (AList.update k v al) \<subseteq> insert (k, v) (set al)"
  by (induction al) auto

lemma counts_pos_update: "counts_pos c \<Longrightarrow> 1 \<le> v \<Longrightarrow> counts_pos (AList.update k v c)"
  using set_update_subset [of k v c] by (auto simp: counts_pos_def list_all_iff)

lemma counts_pos_get: "counts_pos c \<Longrightarrow> 0 \<le> counter_get c k"
proof (cases "map_of c k")
  case None
  then show ?thesis by (simp add: counter_get_def)
next
  case (Some n)
  assume "counts_pos c"
  moreover from Some have "(k, n) \<in> set c" by (rule map_of_SomeD)
  ultimately have "1 \<le> n" by (auto simp: counts_pos_def list_all_iff)
  with Some show ?thesis by (simp add: counter_get_def)
qed

lemma wf_counter_incr: "wf_counter c \<Longrightarrow> wf_counter (counter_incr c w)"
  by (simp add: wf_counter_def counter_incr_def distinct_update)

lemma counts_pos_incr: "counts_pos c \<Longrightarrow> counts_pos (counter_incr c w)"
  using counts_pos_get [of c w] by (simp add: counter_incr_def counts_pos_update)

lemma map_of_counter_incr:
  "map_of (counter_incr c w) = (map_of c)(w \<mapsto> counter_get c w + 1)"
  by (simp add: counter_incr_def update_conv')

lemma wf_tokenize_step: "wf_counter c \<Longrightarrow> wf_counter (tokenize_step w c)"
  by (simp add: tokenize_step_def wf_counter_incr)

lemma counts_pos_tokenize_step: "counts_pos c \<Longrightarrow> counts_pos (tokenize_step w c)"
  by (simp add: tokenize_step_def counts_pos_incr)

lemma wf_fold_tokenize: "wf_counter c \<Longrightarrow> wf_counter (fold tokenize_step ws c)"
  by (induction ws arbitrary: c) (simp_all add: wf_tokenize_step)

lemma counts_pos_fold_tokenize: "counts_pos c \<Longrightarrow> counts_pos (fold tokenize_step ws c)"
  by (induction ws arbitrary: c) (simp_all add: counts_pos_tokenize_step)

lemma wf_tokenize_and_count: "wf_counter (tokenize_and_count t)"
  unfolding tokenize_and_count_def by (rule wf_fold_tokenize) (simp add: wf_counter_def)

lemma counts_pos_tokenize_and_count: "counts_pos (tokenize_and_count t)"
  unfolding tokenize_and_count_def by (rule counts_pos_fold_tokenize) (simp add: counts_pos_def)

lemma tokenize_step_keeps: "tokenize_step w c = (if keeps w then counter_incr c w else c)"
  by (simp add: tokenize_step_def keeps_def)

lemma map_of_fold_tokenize:
  "map_of (fold tokenize_step ws c) k =
     (if keeps k \<and> k \<in> set ws then Some (counter_get c k + int (count_list ws k))
      else map_of c k)"
proof (induction ws arbitrary: c)
  case Nil
  then show ?case by simp
next
  case (Cons w ws)
  show ?case
  proof (cases "keeps w")
    case True
    then have st: "tokenize_step w c = AList.update w (counter_get c w + 1) c"
      by (simp add: tokenize_step_keeps counter_incr_def)
    show ?thesis
      using True by (auto simp: Cons.IH st update_conv')
  next
    case False
    then have st: "tokenize_step w c = c"
      by (simp add: tokenize_step_keeps)
    show ?thesis
      using False by (auto simp: Cons.IH st)
  qed
qed

lemma fold_tokenize_replicate_keep:
  "keeps w \<Longrightarrow> fold tokenize_step (replicate n w) [(w, m)] = [(w, m + int n)]"
proof (induction n arbitrary: m)
  case 0
  then show ?case by simp
next
  case (Suc n)
  from Suc.prems have st: "tokenize_step w [(w, m)] = [(w, m + 1)]"
    by (simp add: tokenize_step_keeps counter_incr_def)
  show ?case
    using Suc.IH [OF Suc.prems, of "m + 1"] by (simp add: st del: fold_replicate)
qed

lemma fold_tokenize_replicate_drop:
  "\<not> keeps w \<Longrightarrow> fold tokenize_step (replicate n w) [] = []"
proof (induction n)
  case 0
  then show ?case by simp
next
  case (Suc n)
  from Suc.prems have st: "tokenize_step w [] = []"
    by (simp add: tokenize_step_keeps)
  show ?case
    using Suc.IH [OF Suc.prems] by (simp add: st del: fold_replicate)
qed

lemma fold_tokenize_replicate:
  "fold tokenize_step (replicate (Suc n) w) [] = (if keeps w then [(w, int n + 1)] else [])"
proof (cases "keeps w")
  case True
  then have st: "tokenize_step w [] = [(w, 1)]"
    by (simp add: tokenize_step_keeps counter_incr_def)
  show ?thesis
    using True fold_tokenize_replicate_keep [OF True, of n 1]
    by (simp add: st del: fold_replicate)
next
  case False
  then show ?thesis
    using fold_tokenize_replicate_drop [OF False, of "Suc n"] by simp
qed

section \<open>The tokenizer on a repeated token, and the two word lists\<close>

lemma is_space_not_word: "is_space c \<Longrightarrow> \<not> is_word_char c"
  unfolding is_space_def is_word_char_def Let_def by presburger

lemma list_all_word_lower: "list_all is_word_char w \<Longrightarrow> list_all is_word_char (py_lower w)"
  by (simp add: py_lower_def list_all_iff)

lemma runs_repeated_aux:
  assumes w: "list_all is_word_char w" "w \<noteq> []"
    and seps: "list_all (\<lambda>s. s \<noteq> [] \<and> list_all (\<lambda>c. \<not> is_word_char c) s) seps"
  shows "word_runs w (concat (map (\<lambda>s. s @ w) seps)) = replicate (Suc (length seps)) w"
  using seps
proof (induction seps)
  case Nil
  with w show ?case by simp
next
  case (Cons s seps)
  then have s: "s \<noteq> []" "list_all (\<lambda>c. \<not> is_word_char c) s"
    and rest: "word_runs w (concat (map (\<lambda>s. s @ w) seps)) = replicate (Suc (length seps)) w"
    by simp_all
  have "word_runs w (concat (map (\<lambda>s. s @ w) (s # seps)))
          = word_runs w (s @ (w @ concat (map (\<lambda>s. s @ w) seps)))"
    by simp
  also have "\<dots> = [w] @ word_runs [] (w @ concat (map (\<lambda>s. s @ w) seps))"
    using word_runs_sep [OF s(2) s(1), of w] w(2) by simp
  also have "\<dots> = [w] @ word_runs w (concat (map (\<lambda>s. s @ w) seps))"
    using word_runs_append_word [OF w(1), of "[]"] by simp
  finally show ?case using rest by simp
qed

lemma findall_repeated:
  assumes "list_all is_word_char w" "w \<noteq> []"
    and "list_all (\<lambda>s. s \<noteq> [] \<and> list_all (\<lambda>c. \<not> is_word_char c) s) seps"
  shows "findall (repeated w seps) = replicate (Suc (length seps)) w"
  using runs_repeated_aux [OF assms] word_runs_append_word [OF assms(1), of "[]"]
  by (simp add: findall_def repeated_def)

lemma py_lower_repeated:
  "py_lower (repeated w seps) = repeated (py_lower w) (map py_lower seps)"
  by (simp add: repeated_def py_lower_def map_concat comp_def)

lemma seps_lower:
  assumes "list_all (\<lambda>s. s \<noteq> [] \<and> list_all is_space s) seps"
  shows "list_all (\<lambda>s. s \<noteq> [] \<and> list_all (\<lambda>c. \<not> is_word_char c) s) (map py_lower seps)"
  using assms by (auto simp: list_all_iff py_lower_def is_space_not_word)

lemma shared_length: "w \<in> set SHARED_WORDS \<Longrightarrow> 1 \<le> length w \<and> length w \<le> 40"
  unfolding SHARED_WORDS_def by auto

text \<open>
  Claim C3, as amended. A text made of one token \<open>w\<close> of class letters, of length 1 to 40,
  written \<open>N\<close> times with white space between the copies, is counted as the single key
  \<open>lower(w)\<close> with count \<open>N\<close>; when \<open>lower(w)\<close> is a stop word outside the shared words
  the mapping is empty. Here \<open>N\<close> is the number of separators plus one.
\<close>

theorem tokenize_repeated_token:
  assumes "list_all is_word_char w" and "1 \<le> length w" and "length w \<le> 40"
    and "list_all (\<lambda>s. s \<noteq> [] \<and> list_all is_space s) seps"
  shows "tokenize_and_count (repeated w seps) =
           (if py_lower w \<in> set ENGLISH_STOPWORDS \<and> py_lower w \<notin> set SHARED_WORDS then []
            else [(py_lower w, int (length seps) + 1)])"
proof -
  have lw: "list_all is_word_char (py_lower w)" "py_lower w \<noteq> []"
    using list_all_word_lower [OF assms(1)] assms(2) by (auto simp: py_lower_def)
  have runs: "findall (py_lower (repeated w seps)) = replicate (Suc (length seps)) (py_lower w)"
    using findall_repeated [OF lw seps_lower [OF assms(4)]] by (simp add: py_lower_repeated)
  have k: "keeps (py_lower w) =
             (\<not> (py_lower w \<in> set ENGLISH_STOPWORDS \<and> py_lower w \<notin> set SHARED_WORDS))"
    using assms(2,3) by (auto simp: keeps_def py_lower_def)
  show ?thesis
    unfolding tokenize_and_count_def runs fold_tokenize_replicate k by simp
qed

theorem tokenize_repeated_token_witness:
  "tokenize_and_count (repeated ''Jag'' ['' '', [CHR 0x0A]]) = [(''jag'', 3)]
   \<and> tokenize_and_count (repeated ''The'' ['' '']) = []"
proof -
  have a: "list_all is_word_char ''Jag''" "1 \<le> length ''Jag''" "length ''Jag'' \<le> 40"
    "list_all (\<lambda>s. s \<noteq> [] \<and> list_all is_space s) ['' '', [CHR 0x0A]]"
    by code_simp+
  have b: "list_all is_word_char ''The''" "1 \<le> length ''The''" "length ''The'' \<le> 40"
    "list_all (\<lambda>s. s \<noteq> [] \<and> list_all is_space s) ['' '']"
    by code_simp+
  have c: "py_lower ''Jag'' = ''jag''" "py_lower ''The'' = ''the''"
    by code_simp+
  have d: "\<not> (''jag'' \<in> set ENGLISH_STOPWORDS \<and> ''jag'' \<notin> set SHARED_WORDS)"
    "''the'' \<in> set ENGLISH_STOPWORDS \<and> ''the'' \<notin> set SHARED_WORDS"
    by code_simp+
  show ?thesis
    using tokenize_repeated_token [OF a] tokenize_repeated_token [OF b] d
    by (simp add: c)
qed

text \<open>
  Claim C3 as it is stated fails: the token \<open>The\<close> is made of class letters and has length 3,
  and the text \<open>The The\<close> yields the empty mapping, not the key \<open>The\<close> with count 2.
\<close>

theorem tokenize_repeated_token_counterexample:
  "list_all is_word_char ''The'' \<and> 1 \<le> length ''The'' \<and> length ''The'' \<le> 40
   \<and> tokenize_and_count ''The The'' = []
   \<and> map_of (tokenize_and_count ''The The'') ''The'' \<noteq> Some 2"
  by code_simp

text \<open>
  Claim C4. For every text and every run of class letters of the lower-cased text, which is
  what the tokenizer extracts whatever the letter case of the input: when the run is a stop
  word that is also a shared word, it is a key of the mapping, counted once for each of its
  occurrences; when it is a stop word that is not a shared word, it is not a key of the
  mapping.
\<close>

theorem stoplist_allowlist_policy:
  assumes "r \<in> set (findall (py_lower t))"
  shows "(r \<in> set ENGLISH_STOPWORDS \<and> r \<in> set SHARED_WORDS \<longrightarrow>
            map_of (tokenize_and_count t) r = Some (int (count_list (findall (py_lower t)) r))
            \<and> 1 \<le> count_list (findall (py_lower t)) r)
       \<and> (r \<in> set ENGLISH_STOPWORDS \<and> r \<notin> set SHARED_WORDS \<longrightarrow>
            map_of (tokenize_and_count t) r = None)"
proof -
  have cnt: "1 \<le> count_list (findall (py_lower t)) r"
    using assms count_list_0_iff [of "findall (py_lower t)" r] by simp
  have kept: "keeps r" if "r \<in> set SHARED_WORDS"
    using shared_length [OF that] that by (auto simp: keeps_def)
  have dropped: "\<not> keeps r"
    if "r \<in> set ENGLISH_STOPWORDS \<and> r \<notin> set SHARED_WORDS"
    using that by (simp add: keeps_def)
  show ?thesis
    using assms cnt kept dropped
    by (auto simp: tokenize_and_count_def map_of_fold_tokenize)
qed

theorem stoplist_allowlist_policy_witness:
  "findall (py_lower ''AN The an'') = [''an'', ''the'', ''an'']
   \<and> map_of (tokenize_and_count ''AN The an'') ''an'' = Some 2
   \<and> map_of (tokenize_and_count ''AN The an'') ''the'' = None"
proof -
  have c: "findall (py_lower ''AN The an'') = [''an'', ''the'', ''an'']"
    by code_simp
  have a: "''an'' \<in> set (findall (py_lower ''AN The an''))"
    "''the'' \<in> set (findall (py_lower ''AN The an''))"
    by (simp_all add: c)
  have d: "''an'' \<in> set ENGLISH_STOPWORDS \<and> ''an'' \<in> set SHARED_WORDS"
    "''the'' \<in> set ENGLISH_STOPWORDS \<and> ''the'' \<notin> set SHARED_WORDS"
    by code_simp+
  show ?thesis
    using stoplist_allowlist_policy [OF a(1)] stoplist_allowlist_policy [OF a(2)] d
    by (simp add: c)
qed

section \<open>Stripping twice\<close>

lemma strip_start_free:
  "list_all (\<lambda>m. str_find t m = None) ms \<Longrightarrow> strip_start ms t = t"
  by (induction ms) simp_all

lemma strip_end_free:
  "list_all (\<lambda>m. str_find t m = None) ms \<Longrightarrow> strip_end ms t = t"
  by (induction ms) simp_all

lemma strip_marker_free: "marker_free t \<Longrightarrow> strip_gutenberg_boilerplate t = t"
  by (simp add: marker_free_def strip_gutenberg_boilerplate_def strip_start_free strip_end_free)

text \<open>
  Claim C5, as amended. Stripping a stripped text again returns it unchanged whenever the
  stripped text holds no start marker and no end marker.
\<close>

theorem strip_twice_marker_free:
  "marker_free (strip_gutenberg_boilerplate t) \<Longrightarrow>
     strip_gutenberg_boilerplate (strip_gutenberg_boilerplate t) = strip_gutenberg_boilerplate t"
  by (rule strip_marker_free)

theorem strip_twice_marker_free_witness:
  "strip_gutenberg_boilerplate
     (''*** START OF THIS PROJECT GUTENBERG EBOOK ***'' @ [CHR 0x0A] @ ''hej'' @ [CHR 0x0A]
        @ ''*** END OF THIS PROJECT GUTENBERG EBOOK ***'') = ''hej'' @ [CHR 0x0A]
   \<and> marker_free (''hej'' @ [CHR 0x0A])
   \<and> strip_gutenberg_boilerplate (''hej'' @ [CHR 0x0A]) = ''hej'' @ [CHR 0x0A]"
proof -
  let ?t = "''*** START OF THIS PROJECT GUTENBERG EBOOK ***'' @ [CHR 0x0A] @ ''hej'' @ [CHR 0x0A]
        @ ''*** END OF THIS PROJECT GUTENBERG EBOOK ***''"
  have s: "strip_gutenberg_boilerplate ?t = ''hej'' @ [CHR 0x0A]"
    by code_simp
  have m: "marker_free (''hej'' @ [CHR 0x0A])"
    by code_simp
  show ?thesis
    using strip_twice_marker_free [of ?t] s m by simp
qed

text \<open>
  Claim C5 as it is stated fails. The end markers are tried in the order of the list, and the
  text is cut at the first one of the list that occurs, not at the one that occurs first in
  the text: a footer line \<open>End of the Project Gutenberg EBook\<close> above the line
  \<open>*** END OF THIS PROJECT GUTENBERG EBOOK ***\<close> survives the first pass and is cut by
  the second.
\<close>

theorem strip_not_idempotent_counterexample:
  "strip_gutenberg_boilerplate
     (''hej'' @ [CHR 0x0A] @ ''End of the Project Gutenberg EBook'' @ [CHR 0x0A]
        @ ''*** END OF THIS PROJECT GUTENBERG EBOOK ***'')
     = ''hej'' @ [CHR 0x0A] @ ''End of the Project Gutenberg EBook'' @ [CHR 0x0A]
   \<and> strip_gutenberg_boilerplate
       (''hej'' @ [CHR 0x0A] @ ''End of the Project Gutenberg EBook'' @ [CHR 0x0A])
     = ''hej'' @ [CHR 0x0A]
   \<and> strip_gutenberg_boilerplate
       (strip_gutenberg_boilerplate
          (''hej'' @ [CHR 0x0A] @ ''End of the Project Gutenberg EBook'' @ [CHR 0x0A]
             @ ''*** END OF THIS PROJECT GUTENBERG EBOOK ***''))
     \<noteq> strip_gutenberg_boilerplate
         (''hej'' @ [CHR 0x0A] @ ''End of the Project Gutenberg EBook'' @ [CHR 0x0A]
            @ ''*** END OF THIS PROJECT GUTENBERG EBOOK ***'')"
  by code_simp

section \<open>Merging and the aggregator\<close>

lemma successes_append [simp]: "successes (xs @ ys) = successes xs @ successes ys"
  by (induction xs rule: successes.induct) simp_all

lemma wf_counter_update: "wf_counter s \<Longrightarrow> wf_counter (counter_update s other)"
  unfolding counter_update_def
  by (induction other arbitrary: s) (auto simp: wf_counter_def distinct_update)

lemma counts_pos_counter_update:
  "counts_pos s \<Longrightarrow> counts_pos other \<Longrightarrow> counts_pos (counter_update s other)"
  unfolding counter_update_def
proof (induction other arbitrary: s)
  case Nil
  then show ?case by simp
next
  case (Cons p other)
  obtain k n where p: "p = (k, n)" by (cases p)
  from Cons.prems(2) have n: "1 \<le> n" and rest: "counts_pos other"
    by (simp_all add: p counts_pos_def)
  have "counts_pos (AList.update k (n + counter_get s k) s)"
    using counts_pos_get [OF Cons.prems(1), of k] n
    by (intro counts_pos_update [OF Cons.prems(1)]) simp
  from Cons.IH [OF this rest] show ?case by (simp add: p)
qed

lemma map_of_in_keys: "k \<in> fst ` set c \<Longrightarrow> map_of c k = Some (counter_get c k)"
  by (cases "map_of c k") (auto simp: counter_get_def map_of_eq_None_iff)

lemma map_of_counter_update:
  "wf_counter other \<Longrightarrow>
     map_of (counter_update s other) k =
       (if k \<in> fst ` set other then Some (counter_get s k + counter_get other k)
        else map_of s k)"
  unfolding counter_update_def
proof (induction other arbitrary: s)
  case Nil
  then show ?case by simp
next
  case (Cons p other)
  obtain e n where p: "p = (e, n)" by (cases p)
  from Cons.prems have notin: "e \<notin> fst ` set other" and wf: "wf_counter other"
    by (simp_all add: p wf_counter_def)
  show ?case
    using notin counter_get_notin [OF notin]
    by (auto simp: p Cons.IH [OF wf] update_conv')
qed

lemma counter_get_counter_update:
  "wf_counter other \<Longrightarrow>
     counter_get (counter_update s other) k = counter_get s k + counter_get other k"
  using map_of_counter_update [of other s k] counter_get_notin [of k other]
  by (auto simp: counter_get_def)

lemma keys_counter_update:
  "wf_counter other \<Longrightarrow>
     (map_of (counter_update s other) k = None) = (map_of s k = None \<and> k \<notin> fst ` set other)"
  using map_of_counter_update [of other s k] by (auto simp: map_of_eq_None_iff)

lemma counter_update_commute:
  assumes "wf_counter a" "wf_counter b"
  shows "counter_eq (counter_update a b) (counter_update b a)"
  unfolding counter_eq_def
proof
  fix k
  show "map_of (counter_update a b) k = map_of (counter_update b a) k"
    using map_of_in_keys [of k a] map_of_in_keys [of k b]
      counter_get_notin [of k a] counter_get_notin [of k b]
    by (auto simp: map_of_counter_update [OF assms(1)] map_of_counter_update [OF assms(2)]
          map_of_eq_None_iff [symmetric])
qed

lemma keys_iff_map_of: "(k \<in> fst ` set c) = (map_of c k \<noteq> None)"
  by (simp add: map_of_eq_None_iff)

lemma counter_update_assoc:
  assumes "wf_counter b" "wf_counter c"
  shows "counter_eq (counter_update (counter_update a b) c) (counter_update a (counter_update b c))"
  unfolding counter_eq_def
proof
  fix k
  have wbc: "wf_counter (counter_update b c)"
    using assms(1) by (rule wf_counter_update)
  show "map_of (counter_update (counter_update a b) c) k
          = map_of (counter_update a (counter_update b c)) k"
    using map_of_in_keys [of k b] counter_get_notin [of k b] counter_get_notin [of k c]
    by (auto simp: map_of_counter_update [OF assms(1)] map_of_counter_update [OF assms(2)]
          map_of_counter_update [OF wbc] counter_get_counter_update [OF assms(1)]
          counter_get_counter_update [OF assms(2)] keys_iff_map_of)
qed

lemma sum_get_absent:
  "\<not> list_ex (\<lambda>s. k \<in> fst ` set s) subs \<Longrightarrow> sum_list (map (\<lambda>s. counter_get s k) subs) = 0"
  by (induction subs) (simp_all add: counter_get_notin)

lemma map_of_merge_all:
  "list_all wf_counter subs \<Longrightarrow>
     map_of (merge_all subs c) k =
       (if list_ex (\<lambda>s. k \<in> fst ` set s) subs
        then Some (counter_get c k + sum_list (map (\<lambda>s. counter_get s k) subs))
        else map_of c k)"
proof (induction subs arbitrary: c)
  case Nil
  then show ?case by (simp add: merge_all_def)
next
  case (Cons s subs)
  then have wf: "wf_counter s" and rest: "list_all wf_counter subs" by simp_all
  have step: "merge_all (s # subs) c = merge_all subs (counter_update c s)"
    by (simp add: merge_all_def)
  show ?case
    unfolding step Cons.IH [OF rest]
    using counter_get_notin [of k s] sum_get_absent [of k subs] map_of_in_keys [of k c]
    by (auto simp: map_of_counter_update [OF wf] counter_get_counter_update [OF wf])
qed

lemma merge_all_permuted:
  assumes "mset xs = mset ys" "list_all wf_counter xs"
  shows "map_of (merge_all xs c) = map_of (merge_all ys c)"
proof
  fix k
  have set: "set xs = set ys" using assms(1) by (rule mset_eq_setD)
  then have wf: "list_all wf_counter ys" using assms(2) by (simp add: list_all_iff)
  have "mset (map (\<lambda>s. counter_get s k) xs) = mset (map (\<lambda>s. counter_get s k) ys)"
    using assms(1) by (metis mset_map)
  then have sum: "sum_list (map (\<lambda>s. counter_get s k) xs) = sum_list (map (\<lambda>s. counter_get s k) ys)"
    by (metis sum_mset_sum_list)
  show "map_of (merge_all xs c) k = map_of (merge_all ys c) k"
    by (simp add: map_of_merge_all [OF assms(2)] map_of_merge_all [OF wf] sum list_ex_iff set)
qed

lemma fold_reduce_total:
  "total_counter (fold reduce_step rs st)
     = merge_all (map fst (successes rs)) (total_counter st)"
  by (induction rs arbitrary: st rule: successes.induct)
     (simp_all add: reduce_step_def merge_all_def split: prod.splits)

lemma fold_reduce_failed:
  "n_failed (fold reduce_step rs st)
     = n_failed st + int (length (filter (\<lambda>r. r = None) rs))"
  by (induction rs arbitrary: st rule: successes.induct)
     (simp_all add: reduce_step_def split: prod.splits)

lemma fold_reduce_stats:
  "book_stats (fold reduce_step rs st)
     = book_stats st @ map (\<lambda>(c, f). (basename f, counter_total c)) (successes rs)"
  by (induction rs arbitrary: st rule: successes.induct)
     (simp_all add: reduce_step_def split: prod.splits)

lemma build_frequency_counter_eq:
  "1 \<le> nw \<Longrightarrow>
     build_frequency_counter e arrival nw =
       Inr (merge_all (map fst (successes (map (process_single_file e) arrival))) [],
            map (\<lambda>(c, f). (basename f, counter_total c))
              (successes (map (process_single_file e) arrival)),
            int (length (filter (\<lambda>r. r = None) (map (process_single_file e) arrival))))"
  by (cases "arrival = []")
     (simp_all add: build_frequency_counter_def aggregate_def Let_def fold_reduce_total
        fold_reduce_failed fold_reduce_stats agg_init_def merge_all_def)

lemma process_wf:
  "process_single_file e p = Some (c, f) \<Longrightarrow> wf_counter c \<and> counts_pos c"
  by (auto simp: process_single_file_def wf_tokenize_and_count counts_pos_tokenize_and_count
        split: option.splits if_splits)

lemma successes_wf:
  "list_all wf_counter (map fst (successes (map (process_single_file e) fs)))"
proof (induction fs)
  case Nil
  then show ?case by simp
next
  case (Cons p fs)
  then show ?case
    using process_wf [of e p] by (cases "process_single_file e p") auto
qed

lemma successes_pos:
  "list_all counts_pos (map fst (successes (map (process_single_file e) fs)))"
proof (induction fs)
  case Nil
  then show ?case by simp
next
  case (Cons p fs)
  then show ?case
    using process_wf [of e p] by (cases "process_single_file e p") auto
qed

lemma counts_pos_merge_all:
  "list_all counts_pos subs \<Longrightarrow> counts_pos c \<Longrightarrow> counts_pos (merge_all subs c)"
  unfolding merge_all_def
  by (induction subs arbitrary: c) (simp_all add: counts_pos_counter_update)

lemma mset_successes:
  "mset xs = mset ys \<Longrightarrow> mset (successes xs) = mset (successes ys)"
proof -
  have eq: "mset (successes zs) = image_mset the (filter_mset (\<lambda>r. r \<noteq> None) (mset zs))" for zs :: "'a option list"
    by (induction zs rule: successes.induct) simp_all
  assume "mset xs = mset ys"
  then show ?thesis by (simp add: eq)
qed

text \<open>
  Claim C2. Merging two mappings by adding the counts of each key gives the same mapping in
  either order, and merging three gives the same mapping however they are grouped; and the
  corpus mapping that the aggregator returns is the same for every order in which the
  results of the documents arrive.
\<close>

theorem merge_order_independent:
  assumes "wf_counter a" and "wf_counter b" and "wf_counter c"
    and "mset arrival = mset arrival'" and "1 \<le> nw"
  shows "counter_eq (counter_update a b) (counter_update b a)
       \<and> counter_eq (counter_update (counter_update a b) c) (counter_update a (counter_update b c))
       \<and> (\<exists>tc stats nf tc' stats' nf'.
             build_frequency_counter e arrival nw = Inr (tc, stats, nf)
           \<and> build_frequency_counter e arrival' nw = Inr (tc', stats', nf')
           \<and> counter_eq tc tc')"
proof -
  let ?subs = "\<lambda>fs. map fst (successes (map (process_single_file e) fs))"
  have "mset (map (process_single_file e) arrival) = mset (map (process_single_file e) arrival')"
    using assms(4) by (metis mset_map)
  then have "mset (?subs arrival) = mset (?subs arrival')"
    by (metis mset_successes mset_map)
  then have "map_of (merge_all (?subs arrival) []) = map_of (merge_all (?subs arrival') [])"
    using successes_wf by (rule merge_all_permuted)
  then show ?thesis
    using counter_update_commute [OF assms(1,2)] counter_update_assoc [OF assms(2,3)]
    by (simp add: build_frequency_counter_eq [OF assms(5)] counter_eq_def)
qed

theorem merge_order_independent_witness:
  "counter_eq (counter_update [(''jag'', 1)] [(''du'', 2)]) (counter_update [(''du'', 2)] [(''jag'', 1)])
   \<and> counter_eq (counter_update (counter_update [(''jag'', 1)] [(''du'', 2)]) [(''jag'', 3)])
        (counter_update [(''jag'', 1)] (counter_update [(''du'', 2)] [(''jag'', 3)]))
   \<and> (\<exists>tc stats nf tc' stats' nf'.
         build_frequency_counter example_env [''a.txt'', ''b.txt''] 2 = Inr (tc, stats, nf)
       \<and> build_frequency_counter example_env [''b.txt'', ''a.txt''] 2 = Inr (tc', stats', nf')
       \<and> counter_eq tc tc')"
proof -
  have w: "wf_counter [(''jag'', 1)]" "wf_counter [(''du'', 2)]" "wf_counter [(''jag'', 3)]"
    by (simp_all add: wf_counter_def)
  have m: "mset [''a.txt'', ''b.txt''] = mset [''b.txt'', ''a.txt'']"
    by simp
  have n: "(1::int) \<le> 2" by simp
  show ?thesis
    using merge_order_independent [OF w m n, of example_env] by simp
qed

text \<open>
  Claim C10. Every count of the mapping of the tokenizer is at least 1, for every text, and
  every count of the corpus mapping that the aggregator returns is at least 1, for every
  list of documents.
\<close>

theorem counts_at_least_one:
  "counts_pos (tokenize_and_count t)
   \<and> (\<forall>tc stats nf. build_frequency_counter e arrival nw = Inr (tc, stats, nf) \<longrightarrow> counts_pos tc)"
proof -
  have "counts_pos tc" if "build_frequency_counter e arrival nw = Inr (tc, stats, nf)"
    for tc stats nf
  proof (cases "1 \<le> nw")
    case True
    have "counts_pos (merge_all (map fst (successes (map (process_single_file e) arrival))) [])"
      using successes_pos by (rule counts_pos_merge_all) (simp add: counts_pos_def)
    with that True show ?thesis by (simp add: build_frequency_counter_eq)
  next
    case False
    with that show ?thesis
      by (auto simp: build_frequency_counter_def counts_pos_def split: if_splits)
  qed
  then show ?thesis
    using counts_pos_tokenize_and_count by blast
qed

theorem counts_at_least_one_witness:
  "build_frequency_counter example_env [''b.txt''] 1 = Inr ([(''jag'', 25)], [(''b.txt'', 25)], 0)
   \<and> counts_pos [(''jag'', 25)]"
proof -
  have b: "build_frequency_counter example_env [''b.txt''] 1
             = Inr ([(''jag'', 25)], [(''b.txt'', 25)], 0)"
    by code_simp
  show ?thesis
    using counts_at_least_one [of "[]" example_env "[''b.txt'']" 1] b by simp
qed

lemma build_insert_failed:
  assumes "process_single_file e p = None" and "1 \<le> nw"
  shows "\<exists>tc stats nf. build_frequency_counter e (xs @ ys) nw = Inr (tc, stats, nf)
           \<and> build_frequency_counter e (xs @ p # ys) nw = Inr (tc, stats, nf + 1)"
  using assms(1) by (simp add: build_frequency_counter_eq [OF assms(2)])

lemma build_append_success:
  assumes "process_single_file e p = Some (c, f)" and "1 \<le> nw"
  shows "\<exists>tc stats nf. build_frequency_counter e xs nw = Inr (tc, stats, nf)
           \<and> build_frequency_counter e (xs @ [p]) nw
               = Inr (counter_update tc c, stats @ [(basename f, counter_total c)], nf)"
  using assms(1) by (simp add: build_frequency_counter_eq [OF assms(2)] merge_all_def)

lemma unsupported_extract:
  "py_lower (snd (splitext p)) \<notin> {''.txt'', ''.pdf'', ''.epub''} \<Longrightarrow> extract_text e p = None"
  by (simp add: extract_text_def HANDLERS_def Let_def)

lemma rfind_append:
  "str_rfind_char (a @ b) c =
     (case str_rfind_char b c of Some i \<Rightarrow> Some (length a + i) | None \<Rightarrow> str_rfind_char a c)"
  by (induction a) (auto split: option.splits)

lemma rfind_none: "c \<notin> set s \<Longrightarrow> str_rfind_char s c = None"
  by (induction s) (auto split: option.splits)

lemma rfind_less: "str_rfind_char s c = Some i \<Longrightarrow> i < length s"
  by (induction s arbitrary: i) (auto split: option.splits if_splits)

lemma splitext_under_directory:
  assumes "CHR ''/'' \<notin> set name"
  shows "snd (splitext (a @ CHR ''/'' # name)) = snd (splitext name)"
proof -
  let ?p = "a @ CHR ''/'' # name"
  have sep0: "rfind_index name (CHR ''/'') = - 1"
    using assms by (simp add: rfind_index_def rfind_none)
  have sep: "rfind_index ?p (CHR ''/'') = int (length a)"
    using assms by (simp add: rfind_index_def rfind_append rfind_none)
  show ?thesis
  proof (cases "str_rfind_char name (CHR ''.'')")
    case None
    have "rfind_index ?p (CHR ''.'') \<le> int (length a)"
    proof (cases "str_rfind_char a (CHR ''.'')")
      case None
      then show ?thesis
        using \<open>str_rfind_char name (CHR ''.'') = None\<close>
        by (simp add: rfind_index_def rfind_append)
    next
      case (Some i)
      then show ?thesis
        using \<open>str_rfind_char name (CHR ''.'') = None\<close> rfind_less [OF Some]
        by (simp add: rfind_index_def rfind_append)
    qed
    then have "snd (splitext ?p) = []"
      by (simp add: splitext_def Let_def sep del: append.simps)
    moreover have "rfind_index name (CHR ''.'') = - 1"
      using None by (simp add: rfind_index_def)
    then have "snd (splitext name) = []"
      by (simp add: splitext_def Let_def sep0)
    ultimately show ?thesis by simp
  next
    case (Some j)
    have dot: "rfind_index ?p (CHR ''.'') = int (length a) + 1 + int j"
      using Some by (simp add: rfind_index_def rfind_append)
    have dot0: "rfind_index name (CHR ''.'') = int j"
      using Some by (simp add: rfind_index_def)
    have l: "snd (splitext ?p)
               = (if list_ex (\<lambda>c. c \<noteq> CHR ''.'') (take j name) then drop j name else [])"
      by (simp add: splitext_def Let_def sep dot nat_add_distrib del: append.simps)
    have r: "snd (splitext name)
               = (if list_ex (\<lambda>c. c \<noteq> CHR ''.'') (take j name) then drop j name else [])"
      by (simp add: splitext_def Let_def sep0 dot0)
    show ?thesis by (simp only: l r)
  qed
qed

lemma splitext_path_join:
  assumes "CHR ''/'' \<notin> set name"
  shows "snd (splitext (path_join dir name)) = snd (splitext name)"
proof -
  have np: "\<not> prefix ''/'' name"
    using assms by (cases name) auto
  show ?thesis
  proof (cases "dir = []")
    case True
    then show ?thesis using np by (simp add: path_join_def)
  next
    case False
    show ?thesis
    proof (cases "endswith dir ''/''")
      case True
      then obtain r where r: "dir = r @ ''/''"
        by (auto simp: endswith_def suffix_def)
      have "path_join dir name = r @ CHR ''/'' # name"
        using np True False by (simp add: path_join_def r)
      then show ?thesis using splitext_under_directory [OF assms] by simp
    next
      case nosep: False
      have "path_join dir name = dir @ CHR ''/'' # name"
        using np nosep False by (simp add: path_join_def)
      then show ?thesis using splitext_under_directory [OF assms] by simp
    qed
  qed
qed

lemma set_insort_str: "set (insort_str x xs) = insert x (set xs)"
  by (induction xs) auto

lemma set_py_sorted: "set (py_sorted xs) = set xs"
  unfolding py_sorted_def by (induction xs) (simp_all add: set_insort_str)

lemma supported_name_iff:
  "supported_name name = (py_lower (snd (splitext name)) \<in> {''.txt'', ''.pdf'', ''.epub''})"
  by (auto simp: supported_name_def HANDLERS_def)

lemma collected_supported:
  assumes "plain_names e books_dir" "p \<in> set (collect_files e books_dir include_legacy)"
  shows "py_lower (snd (splitext p)) \<in> {''.txt'', ''.pdf'', ''.epub''}"
proof -
  have joined: "py_lower (snd (splitext (path_join dir name))) \<in> {''.txt'', ''.pdf'', ''.epub''}"
    if "CHR ''/'' \<notin> set name" "supported_name name" for dir name
    using that by (simp add: splitext_path_join supported_name_iff)
  from assms(2) consider
    (walked) dir filenames name where "(dir, filenames) \<in> set (walk e books_dir)"
      "name \<in> set filenames" "supported_name name" "p = path_join dir name"
  | (legacy) name where "name \<in> set (listdir e LEGACY_BOOKS_DIR)" "supported_name name"
      "p = path_join LEGACY_BOOKS_DIR name"
    by (auto simp: collect_files_def Let_def set_py_sorted split: if_splits)
  then show ?thesis
  proof cases
    case walked
    from assms(1) walked(1,2) have "CHR ''/'' \<notin> set name"
      by (auto simp: plain_names_def list_all_iff)
    from joined [OF this walked(3)] show ?thesis by (simp add: walked(4))
  next
    case legacy
    from assms(1) legacy(1) have "CHR ''/'' \<notin> set name"
      by (auto simp: plain_names_def list_all_iff)
    from joined [OF this legacy(2)] show ?thesis by (simp add: legacy(3))
  qed
qed

lemma collect_files_without_unsupported:
  "collect_files (without_unsupported e) books_dir include_legacy
     = collect_files e books_dir include_legacy"
  by (simp add: collect_files_def without_unsupported_def Let_def comp_def case_prod_unfold)

lemma process_without_unsupported:
  "process_single_file (without_unsupported e) p = process_single_file e p"
proof -
  have "extract_text (without_unsupported e) p = extract_text e p"
    by (auto simp: extract_text_def HANDLERS_def Let_def without_unsupported_def
          extract_text_txt_def extract_text_pdf_def extract_text_epub_def)
  then show ?thesis by (simp add: process_single_file_def)
qed

lemma build_without_unsupported:
  "build_frequency_counter (without_unsupported e) arrival nw = build_frequency_counter e arrival nw"
proof -
  have "process_single_file (without_unsupported e) = process_single_file e"
    by (rule ext) (rule process_without_unsupported)
  then show ?thesis by (simp add: build_frequency_counter_def aggregate_def)
qed

text \<open>
  Claim C1, as amended. For a document whose extension is none of \<open>.txt\<close>, \<open>.pdf\<close> and
  \<open>.epub\<close> the worker returns \<open>None\<close>, and the document is not counted as a failure: the
  collection of the files leaves it out of the list that the aggregator is given, so that
  the corpus mapping, the statistics and the failure count of a run are the same with and
  without such documents. They are recorded nowhere.
\<close>

theorem unsupported_extension_skipped:
  assumes "py_lower (snd (splitext p)) \<notin> {''.txt'', ''.pdf'', ''.epub''}"
    and "plain_names e BOOKS_DIR"
  shows "process_single_file e p = None
       \<and> p \<notin> set (collect_files e BOOKS_DIR include_legacy)
       \<and> collect_files (without_unsupported e) BOOKS_DIR include_legacy
           = collect_files e BOOKS_DIR include_legacy
       \<and> main_aggregate (without_unsupported e) include_legacy workers sched
           = main_aggregate e include_legacy workers sched"
proof -
  have none: "process_single_file e p = None"
    using unsupported_extract [OF assms(1)] by (simp add: process_single_file_def)
  have out: "p \<notin> set (collect_files e BOOKS_DIR include_legacy)"
    using collected_supported [OF assms(2)] assms(1) by blast
  have run: "main_aggregate (without_unsupported e) include_legacy workers sched
           = main_aggregate e include_legacy workers sched"
    by (simp add: main_aggregate_def Let_def collect_files_without_unsupported
          build_without_unsupported)
  from none out collect_files_without_unsupported run show ?thesis by (intro conjI)
qed

theorem unsupported_extension_skipped_witness:
  "py_lower (snd (splitext ''books/notes.doc'')) \<notin> {''.txt'', ''.pdf'', ''.epub''}
   \<and> plain_names library_env BOOKS_DIR
   \<and> process_single_file library_env ''books/notes.doc'' = None
   \<and> ''books/notes.doc'' \<notin> set (collect_files library_env BOOKS_DIR False)
   \<and> main_aggregate (without_unsupported library_env) False 1 id
       = main_aggregate library_env False 1 id"
proof -
  have a: "py_lower (snd (splitext ''books/notes.doc'')) \<notin> {''.txt'', ''.pdf'', ''.epub''}"
    by code_simp
  have b: "plain_names library_env BOOKS_DIR"
    by code_simp
  show ?thesis
    using unsupported_extension_skipped [OF a b, of False 1 id] a b by simp
qed

text \<open>
  Claim C1 as it is stated fails in its bucket of skipped documents. The file \<open>notes.doc\<close>
  of the directory is dropped when the files are collected, and the run returns the same
  mapping, statistics and failure count as the run on the directory without it: no part
  of the result holds the skipped document.
\<close>

theorem no_skipped_bucket_counterexample:
  "walk library_env BOOKS_DIR = [(''books'', [''notes.doc'', ''b.txt''])]
   \<and> collect_files library_env BOOKS_DIR False = [''books/b.txt'']
   \<and> main_aggregate library_env False 1 id = Inr ([(''jag'', 25)], [(''b.txt'', 25)], 0)
   \<and> walk (without_unsupported library_env) BOOKS_DIR = [(''books'', [''b.txt''])]
   \<and> main_aggregate (without_unsupported library_env) False 1 id
       = Inr ([(''jag'', 25)], [(''b.txt'', 25)], 0)"
  by code_simp

text \<open>
  Claim C9. A document whose extracted text has 99 characters gives \<open>None\<close> in the worker,
  and the aggregator counts one failure more for it. A document whose extracted text has 100
  characters gives its tokenized mapping, which the aggregator merges into the corpus
  mapping, with one more entry of statistics and the failure count unchanged.
\<close>

theorem minimum_length_threshold:
  assumes "extract_text e p = Some t" and "1 \<le> nw"
  shows "(length t = 99 \<longrightarrow>
            process_single_file e p = None
            \<and> (\<exists>tc stats nf. build_frequency_counter e (xs @ ys) nw = Inr (tc, stats, nf)
                  \<and> build_frequency_counter e (xs @ p # ys) nw = Inr (tc, stats, nf + 1)))
       \<and> (length t = 100 \<longrightarrow>
            process_single_file e p = Some (tokenize_and_count t, p)
            \<and> (\<exists>tc stats nf. build_frequency_counter e xs nw = Inr (tc, stats, nf)
                  \<and> build_frequency_counter e (xs @ [p]) nw
                      = Inr (counter_update tc (tokenize_and_count t),
                             stats @ [(basename p, counter_total (tokenize_and_count t))], nf)))"
proof (intro conjI impI)
  assume len: "length t = 99"
  then show none: "process_single_file e p = None"
    using assms(1) by (simp add: process_single_file_def)
  show "\<exists>tc stats nf. build_frequency_counter e (xs @ ys) nw = Inr (tc, stats, nf)
          \<and> build_frequency_counter e (xs @ p # ys) nw = Inr (tc, stats, nf + 1)"
    using none assms(2) by (rule build_insert_failed)
next
  assume len: "length t = 100"
  then show some: "process_single_file e p = Some (tokenize_and_count t, p)"
    using assms(1) by (auto simp: process_single_file_def)
  show "\<exists>tc stats nf. build_frequency_counter e xs nw = Inr (tc, stats, nf)
          \<and> build_frequency_counter e (xs @ [p]) nw
              = Inr (counter_update tc (tokenize_and_count t),
                     stats @ [(basename p, counter_total (tokenize_and_count t))], nf)"
    using some assms(2) by (rule build_append_success)
qed

theorem minimum_length_threshold_witness:
  "extract_text example_env ''a.txt'' = Some (replicate 99 (CHR ''x''))
   \<and> process_single_file example_env ''a.txt'' = None
   \<and> extract_text example_env ''b.txt'' = Some (concat (replicate 25 ''jag ''))
   \<and> process_single_file example_env ''b.txt'' = Some ([(''jag'', 25)], ''b.txt'')
   \<and> build_frequency_counter example_env [''a.txt''] 1 = Inr ([], [], 1)
   \<and> build_frequency_counter example_env [''b.txt''] 1 = Inr ([(''jag'', 25)], [(''b.txt'', 25)], 0)"
proof -
  have a: "extract_text example_env ''a.txt'' = Some (replicate 99 (CHR ''x''))"
    by code_simp
  have b: "extract_text example_env ''b.txt'' = Some (concat (replicate 25 ''jag ''))"
    by code_simp
  have c: "(1::int) \<le> 1" by simp
  have l: "length (replicate 99 (CHR ''x'')) = 99" "length (concat (replicate 25 ''jag '')) = 100"
    by code_simp+
  have t: "tokenize_and_count (concat (replicate 25 ''jag '')) = [(''jag'', 25)]"
    "build_frequency_counter example_env [] 1 = Inr ([], [], 0)"
    "basename ''b.txt'' = ''b.txt''" "counter_update [] [(''jag'', 25)] = [(''jag'', 25)]"
    "counter_total [(''jag'', 25)] = 25"
    by code_simp+
  show ?thesis
    using minimum_length_threshold [OF a c, of "[]" "[]"]
      minimum_length_threshold [OF b c, of "[]"] a b l
    by (simp add: t)
qed

section \<open>The ranked list\<close>

lemma distinct_SWADESH: "distinct (map fst SWADESH_SWEDISH)"
  unfolding SWADESH_SWEDISH_def by simp

lemma length_SWADESH: "length SWADESH_SWEDISH = 257"
  unfolding SWADESH_SWEDISH_def by simp

lemma build_sorted:
  "sorted_wrt (\<lambda>a b. freq b \<le> freq a) (build_swadesh_data tc)"
proof -
  have "sorted (map freq (sort_key freq (rev (swadesh_joined tc))))" by simp
  then have "sorted_wrt (\<lambda>a b. freq a \<le> freq b) (sort_key freq (rev (swadesh_joined tc)))"
    by (simp add: sorted_map)
  then show ?thesis
    by (simp add: build_swadesh_data_def sort_reverse_def sorted_wrt_rev)
qed

lemma sort_reverse_stable:
  "filter (\<lambda>x. key x = f) (sort_reverse key xs) = filter (\<lambda>x. key x = f) xs"
  by (simp add: sort_reverse_def rev_filter [symmetric] sort_key_stable)

lemma mset_sort_reverse: "mset (sort_reverse key xs) = mset xs"
  by (simp add: sort_reverse_def)

lemma sv_swadesh_joined: "map sv (swadesh_joined tc) = map fst SWADESH_SWEDISH"
  by (simp add: swadesh_joined_def split_beta comp_def)

text \<open>
  Claim C6. For every corpus mapping the ranked list holds one entry for each word of the
  Swadesh list, with the frequency of the word in the mapping, 0 for a word that is not a key
  of it; the list is sorted by frequency in descending order, and the entries of one
  frequency stand in the order of the Swadesh list.
\<close>

theorem ranked_list_sorted_stable:
  "mset (build_swadesh_data tc) = mset (swadesh_joined tc)
   \<and> swadesh_joined tc
       = map (\<lambda>(s, m). \<lparr>sv = s, en = m, freq = counter_get tc s\<rparr>) SWADESH_SWEDISH
   \<and> (map_of tc w = None \<longrightarrow> counter_get tc w = 0)
   \<and> length (build_swadesh_data tc) = length SWADESH_SWEDISH
   \<and> distinct (map sv (build_swadesh_data tc))
   \<and> sorted_wrt (\<lambda>a b. freq b \<le> freq a) (build_swadesh_data tc)
   \<and> filter (\<lambda>e. freq e = f) (build_swadesh_data tc)
       = filter (\<lambda>e. freq e = f) (swadesh_joined tc)"
proof -
  have m: "mset (build_swadesh_data tc) = mset (swadesh_joined tc)"
    by (simp add: build_swadesh_data_def mset_sort_reverse)
  have l: "length (build_swadesh_data tc) = length SWADESH_SWEDISH"
    using mset_eq_length [OF m] by (simp add: swadesh_joined_def)
  have "mset (map sv (build_swadesh_data tc)) = mset (map fst SWADESH_SWEDISH)"
    using m by (metis mset_map sv_swadesh_joined)
  then have d: "distinct (map sv (build_swadesh_data tc))"
    using distinct_SWADESH by (metis mset_eq_imp_distinct_iff)
  have j: "swadesh_joined tc
       = map (\<lambda>(s, m). \<lparr>sv = s, en = m, freq = counter_get tc s\<rparr>) SWADESH_SWEDISH"
    by (simp add: swadesh_joined_def)
  have z: "map_of tc w = None \<longrightarrow> counter_get tc w = 0"
    by (simp add: counter_get_def)
  have s: "sorted_wrt (\<lambda>a b. freq b \<le> freq a) (build_swadesh_data tc)"
    by (rule build_sorted)
  have st: "filter (\<lambda>e. freq e = f) (build_swadesh_data tc)
       = filter (\<lambda>e. freq e = f) (swadesh_joined tc)"
    unfolding build_swadesh_data_def by (rule sort_reverse_stable)
  from m j z l d s st show ?thesis by (intro conjI)
qed

theorem ranked_list_sorted_stable_witness:
  "map_of [(''jag'', 3), (''du'', 1)] ''hon'' = None
   \<and> counter_get [(''jag'', 3), (''du'', 1)] ''hon'' = 0
   \<and> sorted_wrt (\<lambda>a b. freq b \<le> freq a) (build_swadesh_data [(''jag'', 3), (''du'', 1)])"
proof -
  have a: "map_of [(''jag'', 3::int), (''du'', 1)] ''hon'' = None"
    by simp
  show ?thesis
    using ranked_list_sorted_stable [of "[(''jag'', 3), (''du'', 1)]" "''hon''"] a by simp
qed

section \<open>Rounding to binary64\<close>

lemma ilog2_bounds:
  assumes "0 < x"
  shows "2 powi (ilog2 x) \<le> x \<and> x < 2 powi (ilog2 x + 1)"
proof -
  obtain p d where pd: "quotient_of x = (p, d)" by (cases "quotient_of x")
  have d: "0 < d" using pd by (rule quotient_of_denom_pos)
  have x: "x = of_int p / of_int d" using pd by (rule quotient_of_div)
  have p: "0 < p" using assms d unfolding x by (simp add: zero_less_divide_iff)
  define bp where "bp = bitlen p"
  define bd where "bd = bitlen d"
  have bp1: "1 \<le> bp" and bd1: "1 \<le> bd"
    using p d by (auto simp: bp_def bd_def bitlen_alt_def)
  have bpb: "(2::int) ^ nat (bp - 1) \<le> p" "p < 2 ^ nat bp"
    using bitlen_bounds [OF p] by (simp_all add: bp_def)
  have bdb: "(2::int) ^ nat (bd - 1) \<le> d" "d < 2 ^ nat bd"
    using bitlen_bounds [OF d] by (simp_all add: bd_def)
  have rp: "(2::rat) powi (bp - 1) \<le> of_int p" "of_int p < (2::rat) powi bp"
  proof -
    have "(of_int ((2::int) ^ nat (bp - 1)) :: rat) \<le> of_int p"
      using bpb(1) by (simp only: of_int_le_iff)
    then show "(2::rat) powi (bp - 1) \<le> of_int p"
      using bp1 by (simp add: power_int_def)
    have "(of_int p :: rat) < of_int ((2::int) ^ nat bp)"
      using bpb(2) by (simp only: of_int_less_iff)
    then show "of_int p < (2::rat) powi bp"
      using bp1 by (simp add: power_int_def)
  qed
  have rd: "(2::rat) powi (bd - 1) \<le> of_int d" "of_int d < (2::rat) powi bd"
  proof -
    have "(of_int ((2::int) ^ nat (bd - 1)) :: rat) \<le> of_int d"
      using bdb(1) by (simp only: of_int_le_iff)
    then show "(2::rat) powi (bd - 1) \<le> of_int d"
      using bd1 by (simp add: power_int_def)
    have "(of_int d :: rat) < of_int ((2::int) ^ nat bd)"
      using bdb(2) by (simp only: of_int_less_iff)
    then show "of_int d < (2::rat) powi bd"
      using bd1 by (simp add: power_int_def)
  qed
  have dpos: "(0::rat) < of_int d" using d by simp
  have low: "(2::rat) powi (bp - bd - 1) \<le> x"
  proof -
    have "(2::rat) powi (bp - bd - 1) * of_int d \<le> 2 powi (bp - bd - 1) * 2 powi bd"
      using rd(2) by (intro mult_left_mono) simp_all
    also have "\<dots> = 2 powi (bp - 1)"
      by (simp flip: power_int_add)
    also have "\<dots> \<le> of_int p" by (rule rp(1))
    finally show ?thesis using dpos unfolding x by (simp add: le_divide_eq)
  qed
  have up: "x < (2::rat) powi (bp - bd + 1)"
  proof -
    have "of_int p < (2::rat) powi bp" by (rule rp(2))
    also have "\<dots> = 2 powi (bp - bd + 1) * 2 powi (bd - 1)"
      by (simp flip: power_int_add)
    also have "\<dots> \<le> 2 powi (bp - bd + 1) * of_int d"
      using rd(1) by (intro mult_left_mono) simp_all
    finally show ?thesis using dpos unfolding x by (simp add: divide_less_eq)
  qed
  have il: "ilog2 x = (if 2 powi (bp - bd) \<le> x then bp - bd else bp - bd - 1)"
    by (simp add: ilog2_def pd bp_def bd_def Let_def)
  show ?thesis
  proof (cases "2 powi (bp - bd) \<le> x")
    case True
    then show ?thesis using up by (simp add: il)
  next
    case False
    then show ?thesis using low by (simp add: il)
  qed
qed

lemma ilog2_less:
  assumes "0 < x" "x < 2 powi k"
  shows "ilog2 x < k"
proof (rule ccontr)
  assume "\<not> ilog2 x < k"
  then have "k \<le> ilog2 x" by simp
  then have "(2::rat) powi k \<le> 2 powi (ilog2 x)"
    by (intro power_int_increasing) simp_all
  with ilog2_bounds [OF assms(1)] assms(2) show False by simp
qed

lemma ilog2_ge:
  assumes "0 < x" "2 powi k \<le> x"
  shows "k \<le> ilog2 x"
proof (rule ccontr)
  assume "\<not> k \<le> ilog2 x"
  then have "ilog2 x + 1 \<le> k" by simp
  then have "(2::rat) powi (ilog2 x + 1) \<le> 2 powi k"
    by (intro power_int_increasing) simp_all
  with ilog2_bounds [OF assms(1)] assms(2) show False by simp
qed

lemma ilog2_eqI:
  assumes "2 powi e \<le> x" "x < 2 powi (e + 1)"
  shows "ilog2 x = e"
proof -
  have "(0::rat) < 2 powi e" by simp
  from this assms(1) have pos: "0 < x" by (rule less_le_trans)
  from ilog2_less [OF pos assms(2)] ilog2_ge [OF pos assms(1)] show ?thesis by simp
qed


lemma round_half_even_near:
  "of_int (round_half_even x) \<le> x + 1 / 2 \<and> x - 1 / 2 \<le> of_int (round_half_even x)"
proof -
  obtain f where f: "f = \<lfloor>x\<rfloor>" by simp
  have a: "of_int f \<le> x" "x < of_int f + 1" unfolding f by linarith+
  show ?thesis
    unfolding round_half_even_def Let_def f [symmetric] using a by auto
qed

lemma round_half_even_range:
  assumes "0 \<le> x" "x \<le> of_int n"
  shows "0 \<le> round_half_even x \<and> round_half_even x \<le> n"
proof -
  obtain f where f: "f = \<lfloor>x\<rfloor>" by simp
  have a: "of_int f \<le> x" "x < of_int f + 1" unfolding f by linarith+
  have f0: "0 \<le> f" unfolding f using assms(1) by simp
  have "of_int f \<le> (of_int n :: rat)" using a(1) assms(2) by linarith
  then have fn: "f \<le> n" by (simp only: of_int_le_iff)
  show ?thesis
  proof (cases "f = n")
    case True
    then have "x - of_int f \<le> 0" using assms(2) by simp
    then show ?thesis
      unfolding round_half_even_def Let_def f [symmetric] using f0 True by auto
  next
    case False
    with fn have "f + 1 \<le> n" by simp
    then show ?thesis
      unfolding round_half_even_def Let_def f [symmetric] using f0 by auto
  qed
qed

lemma round_half_even_eqI:
  "\<bar>x - of_int m\<bar> < 1 / 2 \<Longrightarrow> round_half_even x = m"
proof -
  assume a: "\<bar>x - of_int m\<bar> < 1 / 2"
  have "(of_int (round_half_even x) :: rat) < of_int m + 1"
    using round_half_even_near [of x] a by linarith
  moreover have "(of_int m :: rat) - 1 < of_int (round_half_even x)"
    using round_half_even_near [of x] a by linarith
  ultimately have "round_half_even x < m + 1" "m - 1 < round_half_even x"
    by (metis of_int_less_iff of_int_add of_int_1, metis of_int_less_iff of_int_diff of_int_1)
  then show ?thesis by simp
qed

text \<open>The quantum of a positive number below \<open>2 ^ k\<close>.\<close>

lemma fl_pos:
  assumes "0 < x" "x < 2 powi k" "k \<le> 52" "- 1021 \<le> k"
  obtains n where "fl x = of_int (round_half_even (x * 2 ^ n)) / 2 ^ n" and "53 \<le> int n + k"
proof -
  define q where "q = max (ilog2 x - 52) (- 1074)"
  have "ilog2 x < k" using assms(1,2) by (rule ilog2_less)
  then have q: "q \<le> k - 53" "q \<le> 0" using assms(3,4) by (simp_all add: q_def)
  define n where "n = nat (- q)"
  have p: "(2::rat) powi q = 1 / 2 ^ n"
    using q(2) by (cases "q = 0") (simp_all add: power_int_def n_def inverse_eq_divide power_one_over)
  have "fl x = of_int (round_half_even (x / 2 powi q)) * 2 powi q"
    using assms(1) by (simp add: fl_def q_def Let_def)
  then have "fl x = of_int (round_half_even (x * 2 ^ n)) / 2 ^ n"
    by (simp add: p)
  moreover have "53 \<le> int n + k" using q by (simp add: n_def)
  ultimately show thesis by (rule that)
qed

lemma fl_range:
  assumes "0 \<le> x" "x \<le> of_int B" "of_int B < (2::rat) powi k" "k \<le> 52" "- 1021 \<le> k"
  shows "0 \<le> fl x \<and> fl x \<le> of_int B"
proof (cases "x = 0")
  case True
  then show ?thesis using assms(1,2) by (simp add: fl_def)
next
  case False
  then have pos: "0 < x" using assms(1) by simp
  have lt: "x < 2 powi k" using assms(2,3) by simp
  obtain n where n: "fl x = of_int (round_half_even (x * 2 ^ n)) / 2 ^ n"
    using fl_pos [OF pos lt assms(4,5)] by blast
  have "0 \<le> x * 2 ^ n" using assms(1) by simp
  moreover have "x * 2 ^ n \<le> of_int (B * 2 ^ n)" using assms(2) by simp
  ultimately have r: "0 \<le> round_half_even (x * 2 ^ n) \<and> round_half_even (x * 2 ^ n) \<le> B * 2 ^ n"
    by (rule round_half_even_range)
  then have "(of_int (round_half_even (x * 2 ^ n)) :: rat) \<le> of_int (B * 2 ^ n)"
    by (simp only: of_int_le_iff)
  then have "(of_int (round_half_even (x * 2 ^ n)) :: rat) / 2 ^ n \<le> of_int B"
    by (simp add: divide_le_eq)
  moreover have "(0::rat) \<le> of_int (round_half_even (x * 2 ^ n)) / 2 ^ n"
    using r by simp
  ultimately show ?thesis by (simp add: n)
qed

lemma fl_error:
  assumes "0 \<le> x" "x < 2 powi k" "k \<le> 52" "- 1021 \<le> k"
  shows "\<bar>fl x - x\<bar> \<le> 2 powi (k - 54)"
proof (cases "x = 0")
  case True
  then show ?thesis by (simp add: fl_def)
next
  case False
  then have pos: "0 < x" using assms(1) by simp
  obtain n where n: "fl x = of_int (round_half_even (x * 2 ^ n)) / 2 ^ n" and nk: "53 \<le> int n + k"
    using fl_pos [OF pos assms(2,3,4)] by blast
  have "\<bar>of_int (round_half_even (x * 2 ^ n)) - x * 2 ^ n\<bar> \<le> 1 / 2"
    using round_half_even_near [of "x * 2 ^ n"] by linarith
  then have "\<bar>of_int (round_half_even (x * 2 ^ n)) - x * 2 ^ n\<bar> / 2 ^ n \<le> (1 / 2) / 2 ^ n"
    by (intro divide_right_mono) simp_all
  moreover have "\<bar>fl x - x\<bar> = \<bar>of_int (round_half_even (x * 2 ^ n)) - x * 2 ^ n\<bar> / 2 ^ n"
  proof -
    have "fl x - x = (of_int (round_half_even (x * 2 ^ n)) - x * 2 ^ n) / 2 ^ n"
      unfolding n by (simp add: diff_divide_distrib)
    then show ?thesis by (simp add: abs_divide)
  qed
  ultimately have "\<bar>fl x - x\<bar> \<le> (1 / 2) / 2 ^ n" by simp
  also have "\<dots> = 2 powi (- 1 - int n)"
    by (simp add: power_int_def inverse_eq_divide power_one_over nat_add_distrib field_simps)
  also have "\<dots> \<le> 2 powi (k - 54)"
    using nk by (intro power_int_increasing) simp_all
  finally show ?thesis .
qed

lemma abs_le_upper: "\<bar>a - b\<bar> \<le> c \<Longrightarrow> a \<le> b + (c::rat)"
  by linarith

lemma pow2_neg47: "(2::rat) powi (7 - 54) = 1 / 2 ^ 47"
  by (simp add: power_int_def inverse_eq_divide power_one_over)

lemma pow2_neg53: "(2::rat) powi (1 - 54) = 1 / 2 ^ 53"
  by (simp add: power_int_def inverse_eq_divide power_one_over)

lemma fl_eval:
  assumes "2 powi e \<le> x" "x < 2 powi (e + 1)" "- 1022 \<le> e"
    and "\<bar>x / 2 powi (e - 52) - of_int m\<bar> < 1 / 2"
  shows "fl x = of_int m * 2 powi (e - 52)"
proof -
  have "(0::rat) < 2 powi e" by simp
  from this assms(1) have pos: "0 < x" by (rule less_le_trans)
  have e: "ilog2 x = e" using assms(1,2) by (rule ilog2_eqI)
  have q: "max (e - 52) (- 1074) = e - 52" using assms(3) by simp
  show ?thesis
    using pos by (simp add: fl_def Let_def e q round_half_even_eqI [OF assms(4)])
qed

lemma to_float_finite:
  "0 \<le> x \<Longrightarrow> x \<le> of_int B \<Longrightarrow> of_int B < (2::rat) powi k \<Longrightarrow> k \<le> 52 \<Longrightarrow> - 1021 \<le> k \<Longrightarrow>
     to_float x = Float (fl x)"
proof -
  assume a: "0 \<le> x" "x \<le> of_int B" "of_int B < (2::rat) powi k" "k \<le> 52" "- 1021 \<le> k"
  have r: "0 \<le> fl x \<and> fl x \<le> of_int B" using a by (rule fl_range)
  have "(2::rat) powi k \<le> 2 powi 1024" using a(4) by (intro power_int_increasing) simp_all
  with r a(3) have "fl x < 2 powi 1024" by linarith
  moreover have "- ((2::rat) powi 1024) < 0" by simp
  ultimately show ?thesis using r by (simp add: to_float_def Let_def del: power_int_numeral)
qed

lemma tier_percent_bounds:
  assumes "0 \<le> sum_list (map freq slice)" "sum_list (map freq slice) \<le> T" "0 < T"
  obtains t where "tier_percent slice T = Inr (Float t)" "0 \<le> t" "t \<le> 100"
    "t \<le> 100 * (of_int (sum_list (map freq slice)) / of_int T) + 1 / 2 ^ 45"
proof -
  define s where "s = sum_list (map freq slice)"
  define x :: rat where "x = of_int s / of_int T"
  have x: "0 \<le> x" "x \<le> of_int 1"
    using assms by (simp_all add: x_def s_def divide_le_eq)
  have one: "of_int 1 < (2::rat) powi 1" by simp
  have q: "0 \<le> fl x \<and> fl x \<le> of_int 1"
    using x one by (rule fl_range) simp_all
  have tq: "to_float x = Float (fl x)"
    using x one by (rule to_float_finite) simp_all
  have eq: "\<bar>fl x - x\<bar> \<le> 2 powi (1 - 54)"
    using x(1) by (rule fl_error) (use x(2) in simp_all)
  have y: "0 \<le> fl x * 100" "fl x * 100 \<le> of_int 100"
    using q by simp_all
  have hundred: "of_int 100 < (2::rat) powi 7" by simp
  have t: "0 \<le> fl (fl x * 100) \<and> fl (fl x * 100) \<le> of_int 100"
    using y hundred by (rule fl_range) simp_all
  have tt: "to_float (fl x * 100) = Float (fl (fl x * 100))"
    using y hundred by (rule to_float_finite) simp_all
  have et: "\<bar>fl (fl x * 100) - fl x * 100\<bar> \<le> 2 powi (7 - 54)"
    using y(1) by (rule fl_error) (use y(2) in simp_all)
  have fold: "rat_of_int (sum_list (map freq slice)) / rat_of_int T = x"
    by (simp add: x_def s_def)
  have "tier_percent slice T = Inr (Float (fl (fl x * 100)))"
    using assms(3) by (simp add: tier_percent_def int_truediv_def fold tq tt)
  moreover have "0 \<le> fl (fl x * 100)" "fl (fl x * 100) \<le> 100" using t by simp_all
  moreover have "fl (fl x * 100) \<le> 100 * x + 1 / 2 ^ 45"
  proof -
    have a1: "fl (fl x * 100) \<le> fl x * 100 + 1 / 2 ^ 47"
      using et unfolding pow2_neg47 by (rule abs_le_upper)
    have a2: "fl x \<le> x + 1 / 2 ^ 53"
      using eq unfolding pow2_neg53 by (rule abs_le_upper)
    have "(100::rat) * (1 / 2 ^ 53) + 1 / 2 ^ 47 \<le> 1 / 2 ^ 45" by simp
    with a1 a2 show ?thesis by linarith
  qed
  ultimately show thesis unfolding x_def s_def by (rule that)
qed

lemma py_round1_bounds:
  assumes "0 \<le> t" "t \<le> 100"
  obtains r where "py_round1 (Float t) = Float r" "0 \<le> r" "r \<le> 100" "r \<le> t + 1 / 20 + 1 / 2 ^ 47"
proof -
  define z :: rat where "z = of_int (round_half_even (t * 10)) / 10"
  have "0 \<le> t * 10" "t * 10 \<le> of_int 1000" using assms by simp_all
  then have "0 \<le> round_half_even (t * 10) \<and> round_half_even (t * 10) \<le> 1000"
    by (rule round_half_even_range)
  then have "(0::rat) \<le> of_int (round_half_even (t * 10))"
    "(of_int (round_half_even (t * 10)) :: rat) \<le> 1000"
    by (simp, metis of_int_le_iff of_int_numeral)
  then have z: "0 \<le> z" "z \<le> of_int 100" by (simp_all add: z_def)
  have zt: "z \<le> t + 1 / 20"
    using round_half_even_near [of "t * 10"] by (simp add: z_def)
  have hundred: "of_int 100 < (2::rat) powi 7" by simp
  have r: "0 \<le> fl z \<and> fl z \<le> of_int 100"
    using z hundred by (rule fl_range) simp_all
  have tz: "to_float z = Float (fl z)"
    using z hundred by (rule to_float_finite) simp_all
  have ez: "\<bar>fl z - z\<bar> \<le> 2 powi (7 - 54)"
    using z(1) by (rule fl_error) (use z(2) in simp_all)
  have fold: "rat_of_int (round_half_even (t * 10)) / 10 = z"
    by (simp add: z_def)
  have "py_round1 (Float t) = Float (fl z)"
    by (simp add: py_round1_def fold tz)
  moreover have "0 \<le> fl z" "fl z \<le> 100" using r by simp_all
  moreover have "fl z \<le> t + 1 / 20 + 1 / 2 ^ 47"
  proof -
    have "fl z \<le> z + 1 / 2 ^ 47"
      using ez unfolding pow2_neg47 by (rule abs_le_upper)
    with zt show ?thesis by linarith
  qed
  ultimately show thesis by (rule that)
qed

lemma sum3_bound:
  fixes a b c t1 t2 t3 x1 x2 x3 e f :: rat
  assumes "x1 + x2 + x3 \<le> 100"
    and "t1 \<le> x1 + e" "t2 \<le> x2 + e" "t3 \<le> x3 + e"
    and "a \<le> t1 + 1 / 20 + f" "b \<le> t2 + 1 / 20 + f" "c \<le> t3 + 1 / 20 + f"
    and "3 * (e + 1 / 20 + f) \<le> 2 / 10"
  shows "a + b + c \<le> 1002 / 10"
proof -
  have "a + b + c \<le> (x1 + x2 + x3) + (e + 1 / 20 + f) + (e + 1 / 20 + f) + (e + 1 / 20 + f)"
    using assms(2-7) by linarith
  moreover have "(e + 1 / 20 + f) + (e + 1 / 20 + f) + (e + 1 / 20 + f) \<le> 2 / 10"
    using assms(8) by simp
  ultimately show ?thesis using assms(1) by linarith
qed

lemma compute_tier_coverage_bounds:
  assumes "0 \<le> sum_list (map freq (take TIER1_SIZE sd))"
    and "0 \<le> sum_list (map freq (drop TIER1_SIZE (take TIER2_SIZE sd)))"
    and "0 \<le> sum_list (map freq (drop TIER2_SIZE sd))"
    and "sum_list (map freq (take TIER1_SIZE sd))
          + sum_list (map freq (drop TIER1_SIZE (take TIER2_SIZE sd)))
          + sum_list (map freq (drop TIER2_SIZE sd)) \<le> T"
    and "0 < T"
  shows "\<exists>a b c. compute_tier_coverage sd T = Inr \<lparr>tier1 = Float a, tier2 = Float b, tier3 = Float c\<rparr>
           \<and> 0 \<le> a \<and> a \<le> 100 \<and> 0 \<le> b \<and> b \<le> 100 \<and> 0 \<le> c \<and> c \<le> 100
           \<and> a + b + c \<le> 1002 / 10"
proof -
  let ?s1 = "sum_list (map freq (take TIER1_SIZE sd))"
  let ?s2 = "sum_list (map freq (drop TIER1_SIZE (take TIER2_SIZE sd)))"
  let ?s3 = "sum_list (map freq (drop TIER2_SIZE sd))"
  have le: "?s1 \<le> T" "?s2 \<le> T" "?s3 \<le> T" using assms(1-4) by linarith+
  obtain t1 where t1: "tier_percent (take TIER1_SIZE sd) T = Inr (Float t1)" "0 \<le> t1" "t1 \<le> 100"
    "t1 \<le> 100 * (of_int ?s1 / of_int T) + 1 / 2 ^ 45"
    using tier_percent_bounds [OF assms(1) le(1) assms(5)] by blast
  obtain t2 where t2: "tier_percent (drop TIER1_SIZE (take TIER2_SIZE sd)) T = Inr (Float t2)"
    "0 \<le> t2" "t2 \<le> 100" "t2 \<le> 100 * (of_int ?s2 / of_int T) + 1 / 2 ^ 45"
    using tier_percent_bounds [OF assms(2) le(2) assms(5)] by blast
  obtain t3 where t3: "tier_percent (drop TIER2_SIZE sd) T = Inr (Float t3)" "0 \<le> t3" "t3 \<le> 100"
    "t3 \<le> 100 * (of_int ?s3 / of_int T) + 1 / 2 ^ 45"
    using tier_percent_bounds [OF assms(3) le(3) assms(5)] by blast
  obtain a where a: "py_round1 (Float t1) = Float a" "0 \<le> a" "a \<le> 100" "a \<le> t1 + 1 / 20 + 1 / 2 ^ 47"
    using py_round1_bounds [OF t1(2,3)] by blast
  obtain b where b: "py_round1 (Float t2) = Float b" "0 \<le> b" "b \<le> 100" "b \<le> t2 + 1 / 20 + 1 / 2 ^ 47"
    using py_round1_bounds [OF t2(2,3)] by blast
  obtain c where c: "py_round1 (Float t3) = Float c" "0 \<le> c" "c \<le> 100" "c \<le> t3 + 1 / 20 + 1 / 2 ^ 47"
    using py_round1_bounds [OF t3(2,3)] by blast
  have cov: "compute_tier_coverage sd T = Inr \<lparr>tier1 = Float a, tier2 = Float b, tier3 = Float c\<rparr>"
    using assms(5) by (simp add: compute_tier_coverage_def t1(1) t2(1) t3(1) a(1) b(1) c(1))
  have "100 * (of_int ?s1 / of_int T) + 100 * (of_int ?s2 / of_int T) + 100 * (of_int ?s3 / of_int T)
          = 100 * (of_int (?s1 + ?s2 + ?s3) / (of_int T :: rat))"
    by (simp add: add_divide_distrib distrib_left)
  also have "\<dots> \<le> 100"
    using assms(4,5) by (simp add: divide_le_eq)
  finally have raw: "100 * (of_int ?s1 / of_int T) + 100 * (of_int ?s2 / of_int T)
      + 100 * (of_int ?s3 / (of_int T :: rat)) \<le> 100" .
  have "(3::rat) * (1 / 2 ^ 45 + 1 / 20 + 1 / 2 ^ 47) \<le> 2 / 10" by simp
  with raw t1(4) t2(4) t3(4) a(4) b(4) c(4) have sum: "a + b + c \<le> 1002 / 10"
    by (rule sum3_bound)
  show ?thesis
    using cov a(2,3) b(2,3) c(2,3) sum by blast
qed

lemma to_float_small: "\<bar>fl x\<bar> < 2 powi 1024 \<Longrightarrow> to_float x = Float (fl x)"
  by (auto simp: to_float_def Let_def simp del: power_int_numeral)

section \<open>Tier coverage\<close>

lemma sum_list_if_key:
  "distinct ks \<Longrightarrow> g k = 0 \<Longrightarrow>
     sum_list (map (\<lambda>x. if x = k then v else g x) ks)
       = (if k \<in> set ks then v else 0) + sum_list (map g ks :: int list)"
  by (induction ks) auto

lemma sum_get_le_total:
  "wf_counter tc \<Longrightarrow> counts_pos tc \<Longrightarrow> distinct ks \<Longrightarrow>
     sum_list (map (counter_get tc) ks) \<le> counter_total tc"
proof (induction tc)
  case Nil
  then show ?case by (simp add: counter_total_def)
next
  case (Cons p tc)
  obtain k v where p: "p = (k, v)" by (cases p)
  from Cons.prems have notin: "k \<notin> fst ` set tc" and wf: "wf_counter tc"
    and v: "1 \<le> v" and pos: "counts_pos tc"
    by (simp_all add: p wf_counter_def counts_pos_def)
  have fn: "counter_get ((k, v) # tc) = (\<lambda>x. if x = k then v else counter_get tc x)"
    by (rule ext) simp
  have "sum_list (map (counter_get ((k, v) # tc)) ks)
          = (if k \<in> set ks then v else 0) + sum_list (map (counter_get tc) ks)"
    unfolding fn
    by (rule sum_list_if_key [of ks "counter_get tc" k v, OF Cons.prems(3) counter_get_notin [OF notin]])
  also have "\<dots> \<le> v + counter_total tc"
    using Cons.IH [OF wf pos Cons.prems(3)] v by simp
  finally show ?case by (simp only: p counter_total_def list.map snd_conv sum_list.Cons)
qed

lemma sum_list_sort_reverse:
  "sum_list (map f (sort_reverse key xs)) = sum_list (map f xs :: int list)"
proof -
  have "mset (map f (sort_reverse key xs)) = mset (map f xs)"
    by (simp add: sort_reverse_def)
  then show ?thesis by (metis sum_mset_sum_list)
qed

lemma sum_list_three_slices:
  "a \<le> b \<Longrightarrow>
     sum_list (map f (take a xs)) + sum_list (map f (drop a (take b xs)))
       + sum_list (map f (drop b xs)) = sum_list (map f xs :: int list)"
proof -
  assume ab: "a \<le> b"
  have "take a xs @ drop a (take b xs) = take b xs"
    using append_take_drop_id [of a "take b xs"] ab by (simp add: min_def)
  then have "map f (take a xs) @ map f (drop a (take b xs)) @ map f (drop b xs) = map f xs"
    by (metis append_assoc append_take_drop_id map_append)
  then show ?thesis by (metis add.assoc sum_list_append)
qed

lemma freq_swadesh_joined:
  "map freq (swadesh_joined tc) = map (counter_get tc) (map fst SWADESH_SWEDISH)"
  by (simp add: swadesh_joined_def split_beta comp_def)

lemma sum_freq_le_total:
  assumes "wf_counter tc" "counts_pos tc"
  shows "sum_list (map freq (build_swadesh_data tc)) \<le> counter_total tc"
  using sum_get_le_total [OF assms distinct_SWADESH]
  by (simp add: build_swadesh_data_def sum_list_sort_reverse freq_swadesh_joined)

lemma freq_nonneg:
  assumes "counts_pos tc"
  shows "list_all (\<lambda>e. 0 \<le> freq e) (build_swadesh_data tc)"
proof -
  have "list_all (\<lambda>e. 0 \<le> freq e) (swadesh_joined tc)"
    using counts_pos_get [OF assms] by (simp add: swadesh_joined_def list_all_iff split_beta)
  moreover have "set (build_swadesh_data tc) = set (swadesh_joined tc)"
    by (simp add: build_swadesh_data_def sort_reverse_def)
  ultimately show ?thesis by (simp add: list_all_iff)
qed

lemma sum_nonneg_slice:
  "list_all (\<lambda>e. 0 \<le> freq e) xs \<Longrightarrow> 0 \<le> sum_list (map freq xs)"
  by (induction xs) simp_all

text \<open>
  Claim C7, as amended. For a corpus mapping with a positive total, the computation returns
  three finite percentages, each between 0 and 100, and their sum is at most 100.2.
\<close>

theorem tier_coverage_bounds:
  assumes "wf_counter tc" and "counts_pos tc" and "0 < counter_total tc"
  shows "\<exists>a b c. corpus_tier_coverage tc = Inr \<lparr>tier1 = Float a, tier2 = Float b, tier3 = Float c\<rparr>
           \<and> 0 \<le> a \<and> a \<le> 100 \<and> 0 \<le> b \<and> b \<le> 100 \<and> 0 \<le> c \<and> c \<le> 100
           \<and> a + b + c \<le> 1002 / 10"
proof -
  let ?sd = "build_swadesh_data tc"
  let ?s1 = "sum_list (map freq (take TIER1_SIZE ?sd))"
  let ?s2 = "sum_list (map freq (drop TIER1_SIZE (take TIER2_SIZE ?sd)))"
  let ?s3 = "sum_list (map freq (drop TIER2_SIZE ?sd))"
  have nn: "list_all (\<lambda>e. 0 \<le> freq e) ?sd"
    using assms(2) by (rule freq_nonneg)
  have n1: "0 \<le> ?s1"
    using nn by (intro sum_nonneg_slice) (auto simp: list_all_iff dest: in_set_takeD)
  have n2: "0 \<le> ?s2"
    using nn by (intro sum_nonneg_slice) (auto simp: list_all_iff dest: in_set_takeD in_set_dropD)
  have n3: "0 \<le> ?s3"
    using nn by (intro sum_nonneg_slice) (auto simp: list_all_iff dest: in_set_dropD)
  have "?s1 + ?s2 + ?s3 = sum_list (map freq ?sd)"
    by (rule sum_list_three_slices) (simp add: TIER1_SIZE_def TIER2_SIZE_def)
  then have le: "?s1 + ?s2 + ?s3 \<le> counter_total tc"
    using sum_freq_le_total [OF assms(1,2)] by simp
  show ?thesis
    unfolding corpus_tier_coverage_def
    using n1 n2 n3 le assms(3) by (rule compute_tier_coverage_bounds)
qed

theorem tier_coverage_bounds_witness:
  "wf_counter [(''jag'', 3), (''du'', 1)] \<and> counts_pos [(''jag'', 3), (''du'', 1)]
   \<and> 0 < counter_total [(''jag'', 3), (''du'', 1)]
   \<and> (\<exists>a b c. corpus_tier_coverage [(''jag'', 3), (''du'', 1)]
                  = Inr \<lparr>tier1 = Float a, tier2 = Float b, tier3 = Float c\<rparr>
         \<and> 0 \<le> a \<and> a \<le> 100 \<and> 0 \<le> b \<and> b \<le> 100 \<and> 0 \<le> c \<and> c \<le> 100
         \<and> a + b + c \<le> 1002 / 10)"
proof -
  have h: "wf_counter [(''jag'', 3), (''du'', 1)]" "counts_pos [(''jag'', 3), (''du'', 1)]"
    "0 < counter_total [(''jag'', 3), (''du'', 1)]"
    by (simp_all add: wf_counter_def counts_pos_def counter_total_def)
  show ?thesis
    using tier_coverage_bounds [OF h] h by simp
qed

lemma counter_get_const:
  "counter_get (map (\<lambda>(s, m). (s, c)) xs) k = (if k \<in> fst ` set xs then c else 0)"
  by (induction xs) (auto simp: split_beta)

lemma freqs_of_prefix_corpus:
  assumes "distinct (map fst kv)"
  shows "map (counter_get (map (\<lambda>(s, m). (s, c)) (take n kv))) (map fst kv)
           = replicate (min n (length kv)) c @ replicate (length kv - n) 0"
proof -
  let ?g = "counter_get (map (\<lambda>(s, m). (s, c)) (take n kv))"
  have "distinct (map fst (take n kv @ drop n kv))"
    using assms by simp
  then have disj: "fst ` set (take n kv) \<inter> fst ` set (drop n kv) = {}"
    by (simp only: map_append distinct_append set_map)
  have inside: "?g (fst x) = c" if "x \<in> set (take n kv)" for x
    using that by (simp add: counter_get_const)
  have outside: "?g (fst x) = 0" if "x \<in> set (drop n kv)" for x
  proof -
    from that have "fst x \<in> fst ` set (drop n kv)" by (rule imageI)
    with disj have "fst x \<notin> fst ` set (take n kv)" by blast
    then show ?thesis by (simp only: counter_get_const if_False)
  qed
  have "map (\<lambda>x. ?g (fst x)) (take n kv) = map (\<lambda>x. c) (take n kv)"
    by (rule map_cong) (simp_all only: inside)
  then have one: "map (\<lambda>x. ?g (fst x)) (take n kv) = replicate (length (take n kv)) c"
    by (simp only: map_replicate_const)
  have "map (\<lambda>x. ?g (fst x)) (drop n kv) = map (\<lambda>x. 0) (drop n kv)"
    by (rule map_cong) (simp_all only: outside)
  then have two: "map (\<lambda>x. ?g (fst x)) (drop n kv) = replicate (length (drop n kv)) 0"
    by (simp only: map_replicate_const)
  have "map (\<lambda>x. ?g (fst x)) kv
          = map (\<lambda>x. ?g (fst x)) (take n kv) @ map (\<lambda>x. ?g (fst x)) (drop n kv)"
    by (simp only: map_append [symmetric] append_take_drop_id)
  also have "\<dots> = replicate (min n (length kv)) c @ replicate (length kv - n) 0"
    unfolding one two by (simp add: min.commute)
  finally show ?thesis by (simp add: comp_def)
qed

lemma freq_corpus149:
  "map freq (swadesh_joined corpus149) = replicate 149 1 @ replicate 108 0"
  using freqs_of_prefix_corpus [OF distinct_SWADESH, of 1 149]
  by (simp add: freq_swadesh_joined corpus149_def length_SWADESH)

lemma build_corpus149: "build_swadesh_data corpus149 = swadesh_joined corpus149"
proof -
  have "sorted (map freq (rev (swadesh_joined corpus149)))"
    by (simp add: rev_map [symmetric] freq_corpus149 sorted_append)
  then show ?thesis
    by (simp add: build_swadesh_data_def sort_reverse_def sort_key_id_if_sorted)
qed

lemma total_corpus149: "counter_total corpus149 = 149"
proof -
  have "map snd corpus149 = replicate 149 1"
    by (simp add: corpus149_def split_beta comp_def map_replicate_const length_SWADESH)
  then show ?thesis by (simp add: counter_total_def sum_list_replicate)
qed

lemma shares_corpus149:
  "sum_list (map freq (take 50 (swadesh_joined corpus149))) = 50"
  "sum_list (map freq (drop 50 (take 100 (swadesh_joined corpus149)))) = 50"
  "sum_list (map freq (drop 100 (swadesh_joined corpus149))) = 49"
  by (simp_all add: take_map [symmetric] drop_map [symmetric] freq_corpus149 sum_list_replicate)

lemma to_float_of:
  assumes "fl x = r" "0 \<le> r" "r \<le> 128"
  shows "to_float x = Float r"
proof -
  have "(128::rat) < 2 powi 1024"
    using power_int_strict_increasing [of 7 1024 "2::rat"] by simp
  with assms(2,3) have "\<bar>fl x\<bar> < 2 powi 1024" unfolding assms(1) by linarith
  then show ?thesis unfolding assms(1) [symmetric] by (rule to_float_small)
qed

lemma fl_50_149: "fl (50 / 149) = 6045100170967109 / 18014398509481984"
  using fl_eval [of "- 2" "50 / 149" 6045100170967109]
  by (simp add: power_int_def inverse_eq_divide power_one_over)

lemma fl_49_149: "fl (49 / 149) = 5924198167547767 / 18014398509481984"
  using fl_eval [of "- 2" "49 / 149" 5924198167547767]
  by (simp add: power_int_def inverse_eq_divide power_one_over)

lemma fl_t50: "fl (6045100170967109 / 18014398509481984 * 100) = 2361367254284027 / 70368744177664"
  using fl_eval [of "5" "6045100170967109 / 18014398509481984 * 100" 4722734508568054]
  by (simp add: power_int_def inverse_eq_divide power_one_over)

lemma fl_t49: "fl (5924198167547767 / 18014398509481984 * 100) = 4628279818396693 / 140737488355328"
  using fl_eval [of "5" "5924198167547767 / 18014398509481984 * 100" 4628279818396693]
  by (simp add: power_int_def inverse_eq_divide power_one_over)

lemma fl_336: "fl (168 / 5) = 4728779608739021 / 140737488355328"
  using fl_eval [of "5" "168 / 5" 4728779608739021]
  by (simp add: power_int_def inverse_eq_divide power_one_over)

lemma fl_329: "fl (329 / 10) = 4630263366890291 / 140737488355328"
  using fl_eval [of "5" "329 / 10" 4630263366890291]
  by (simp add: power_int_def inverse_eq_divide power_one_over)

lemma fl_sum12: "fl (4728779608739021 / 70368744177664) = 4728779608739021 / 70368744177664"
  using fl_eval [of "6" "4728779608739021 / 70368744177664" 4728779608739021]
  by (simp add: power_int_def inverse_eq_divide power_one_over)

lemma rhe_t50: "round_half_even (11806836271420135 / 35184372088832) = 336"
  by (rule round_half_even_eqI) simp

lemma rhe_t49: "round_half_even (23141399091983465 / 70368744177664) = 329"
  by (rule round_half_even_eqI) simp

lemma tie_sum: "round_half_even (14087822584368333 / 2) = 7043911292184166"
  by code_simp

lemma fl_sum123: "fl (14087822584368333 / 140737488355328) = 3521955646092083 / 35184372088832"
proof -
  have e: "ilog2 (14087822584368333 / 140737488355328) = 6"
    by (rule ilog2_eqI) (simp_all add: power_int_def)
  show ?thesis
    using tie_sum by (simp add: fl_def Let_def e power_int_def inverse_eq_divide power_one_over)
qed

lemma tier_percent_corpus149:
  "tier_percent (take 50 (swadesh_joined corpus149)) 149 = Inr (Float (2361367254284027 / 70368744177664))"
  "tier_percent (drop 50 (take 100 (swadesh_joined corpus149))) 149 = Inr (Float (2361367254284027 / 70368744177664))"
  "tier_percent (drop 100 (swadesh_joined corpus149)) 149 = Inr (Float (4628279818396693 / 140737488355328))"
proof -
  have a: "to_float (50 / 149) = Float (6045100170967109 / 18014398509481984)"
    using fl_50_149 by (rule to_float_of) simp_all
  have b: "to_float (6045100170967109 / 18014398509481984 * 100) = Float (2361367254284027 / 70368744177664)"
    using fl_t50 by (rule to_float_of) simp_all
  have c: "to_float (49 / 149) = Float (5924198167547767 / 18014398509481984)"
    using fl_49_149 by (rule to_float_of) simp_all
  have d: "to_float (5924198167547767 / 18014398509481984 * 100) = Float (4628279818396693 / 140737488355328)"
    using fl_t49 by (rule to_float_of) simp_all
  show "tier_percent (take 50 (swadesh_joined corpus149)) 149 = Inr (Float (2361367254284027 / 70368744177664))"
    unfolding tier_percent_def int_truediv_def shares_corpus149 using a b by simp
  show "tier_percent (drop 50 (take 100 (swadesh_joined corpus149))) 149 = Inr (Float (2361367254284027 / 70368744177664))"
    unfolding tier_percent_def int_truediv_def shares_corpus149 using a b by simp
  show "tier_percent (drop 100 (swadesh_joined corpus149)) 149 = Inr (Float (4628279818396693 / 140737488355328))"
    unfolding tier_percent_def int_truediv_def shares_corpus149 using c d by simp
qed

lemma py_round1_corpus149:
  "py_round1 (Float (2361367254284027 / 70368744177664)) = Float (4728779608739021 / 140737488355328)"
  "py_round1 (Float (4628279818396693 / 140737488355328)) = Float (4630263366890291 / 140737488355328)"
proof -
  have a: "to_float (168 / 5) = Float (4728779608739021 / 140737488355328)"
    using fl_336 by (rule to_float_of) simp_all
  have b: "to_float (329 / 10) = Float (4630263366890291 / 140737488355328)"
    using fl_329 by (rule to_float_of) simp_all
  show "py_round1 (Float (2361367254284027 / 70368744177664)) = Float (4728779608739021 / 140737488355328)"
    unfolding py_round1_def using a rhe_t50 by simp
  show "py_round1 (Float (4628279818396693 / 140737488355328)) = Float (4630263366890291 / 140737488355328)"
    unfolding py_round1_def using b rhe_t49 by simp
qed

text \<open>
  Claim C7 as it is stated fails. For the corpus made of the first 149 words of the list,
  each once, the tiers hold 50, 50 and 49 of the 149 words. The percentages returned are
  the floats nearest to 33.6, 33.6 and 32.9; their sum is above 100, and added as Python
  adds them they give the float nearest to 100.1.
\<close>

theorem tier_sum_above_100_counterexample:
  "wf_counter corpus149 \<and> counts_pos corpus149 \<and> counter_total corpus149 = 149
   \<and> corpus_tier_coverage corpus149
       = Inr \<lparr>tier1 = Float (4728779608739021 / 140737488355328),
              tier2 = Float (4728779608739021 / 140737488355328),
              tier3 = Float (4630263366890291 / 140737488355328)\<rparr>
   \<and> \<not> (4728779608739021 / 140737488355328 + 4728779608739021 / 140737488355328
          + 4630263366890291 / 140737488355328 \<le> (100::rat))
   \<and> to_float (4728779608739021 / 140737488355328 + 4728779608739021 / 140737488355328)
       = Float (4728779608739021 / 70368744177664)
   \<and> to_float (4728779608739021 / 70368744177664 + 4630263366890291 / 140737488355328)
       = Float (3521955646092083 / 35184372088832)
   \<and> \<not> (3521955646092083 / 35184372088832 \<le> (100::rat))"
proof -
  have wf: "wf_counter corpus149"
    using distinct_SWADESH distinct_take [of "map fst SWADESH_SWEDISH" 149]
    by (simp add: wf_counter_def corpus149_def split_beta comp_def take_map)
  have pos: "counts_pos corpus149"
    by (simp add: counts_pos_def corpus149_def list_all_iff split_beta)
  have cov: "corpus_tier_coverage corpus149
               = Inr \<lparr>tier1 = Float (4728779608739021 / 140737488355328),
                      tier2 = Float (4728779608739021 / 140737488355328),
                      tier3 = Float (4630263366890291 / 140737488355328)\<rparr>"
    unfolding corpus_tier_coverage_def compute_tier_coverage_def build_corpus149 total_corpus149
      TIER1_SIZE_def TIER2_SIZE_def
    using tier_percent_corpus149 py_round1_corpus149 by simp
  have "to_float (4728779608739021 / 70368744177664) = Float (4728779608739021 / 70368744177664)"
    using fl_sum12 by (rule to_float_of) simp_all
  then have s12: "to_float (4728779608739021 / 140737488355328 + 4728779608739021 / 140737488355328)
       = Float (4728779608739021 / 70368744177664)"
    by simp
  have "to_float (14087822584368333 / 140737488355328) = Float (3521955646092083 / 35184372088832)"
    using fl_sum123 by (rule to_float_of) simp_all
  then have s123: "to_float (4728779608739021 / 70368744177664 + 4630263366890291 / 140737488355328)
       = Float (3521955646092083 / 35184372088832)"
    by simp
  have x: "\<not> (4728779608739021 / 140737488355328 + 4728779608739021 / 140737488355328
          + 4630263366890291 / 140737488355328 \<le> (100::rat))"
    "\<not> (3521955646092083 / 35184372088832 \<le> (100::rat))"
    by simp_all
  from wf pos total_corpus149 cov x(1) s12 s123 x(2) show ?thesis by (intro conjI)
qed

text \<open>
  Claim C8. With a total word count of 0 the computation returns the three percentages 0,
  for every ranked list, and no error, where the division that the guard stands before
  fails at 0.
\<close>

theorem tier_coverage_zero_total:
  "compute_tier_coverage swadesh_data 0 = Inr \<lparr>tier1 = Float 0, tier2 = Float 0, tier3 = Float 0\<rparr>
   \<and> tier_percent slice 0 = Inl ZeroDivisionError"
  by (simp add: compute_tier_coverage_def tier_percent_def int_truediv_def)

end
